theory Spec2Isabelle
  imports Main "HOL-Library.AList" "HOL-Library.Word" "HOL-Library.Sublist"
begin


section \<open>Loop-invariant code motion: the IR, the CFG and the pass state\<close>

text \<open>
  The pass works on pointers: an \<^verbatim>\<open>Expression*\<close> identifies a node of the IR, an
  \<^verbatim>\<open>Expression**\<close> identifies a slot, a place in a parent node (or in the function)
  that holds one node. Both are addresses here, and the tree is a store that maps slots
  to the nodes they hold and nodes to their contents.
\<close>

type_synonym expr_id = nat
type_synonym slot = nat
type_synonym block_id = nat

text \<open>
  The pass discriminates loops (\<^verbatim>\<open>is<Loop>\<close>, \<^verbatim>\<open>dynCast<Loop>\<close>), no-ops
  (\<^verbatim>\<open>is<Nop>\<close>) and builds blocks; every other kind of expression is opaque to it and
  carries a payload \<open>'p\<close> that only the effect analyzer reads.
\<close>

datatype 'p expr_kind = is_Loop: Loop | is_Nop: Nop | is_Block: Block | Other 'p

datatype wasm_type = none | i32 | i64 | f32 | f64 | unreachable

record 'p node =
  kind :: "'p expr_kind"
  type :: wasm_type
  children :: "slot list"

record 'p heap =
  slots :: "slot \<Rightarrow> expr_id"
  nodes :: "expr_id \<Rightarrow> 'p node"

text \<open>
  \<^verbatim>\<open>struct Info { std::vector<Expression**> items; }\<close> inside a basic block of the CFG;
  an item is nulled once its expression has been moved. \<open>out\<close> holds the successor
  blocks, as pointers.
\<close>

record bblock =
  items :: "slot option list"
  out :: "block_id list"

text \<open>
  What the pass reads of an \<^verbatim>\<open>EffectAnalyzer\<close>: the two flags, and whatever else the
  analyzer keeps (the extension of the record), which only \<^verbatim>\<open>invalidates\<close> reads.
\<close>

record effects =
  calls :: bool
  branches :: bool

type_synonym ('p, 'e) analyzer = "'p heap \<Rightarrow> expr_id \<Rightarrow> 'e effects_scheme"
type_synonym 'e invalidates = "'e effects_scheme \<Rightarrow> 'e effects_scheme \<Rightarrow> bool"

text \<open>
  The state of one run on one function: the tree and its arena (the next free node and
  slot addresses), the basic blocks by address, the vector \<^verbatim>\<open>basicBlocks\<close>, the two
  side maps of the pass, and the local vector \<^verbatim>\<open>loops\<close> of \<^verbatim>\<open>findAndMove\<close> (which the
  source fills and never reads).
\<close>

record 'p licm =
  heap :: "'p heap"
  next_id :: expr_id
  next_slot :: slot
  cfg :: "block_id \<Rightarrow> bblock"
  basicBlocks :: "block_id list"
  expressionLoops :: "(expr_id \<times> expr_id option) list"
  movedCode :: "(expr_id \<times> expr_id list) list"
  loops :: "slot list"

datatype failure = AssertionFailed | OutOfFuel

text \<open>
  \<^verbatim>\<open>std::unordered_map::operator[]\<close>: the value at the key, after inserting the
  default value when the key is absent.
\<close>

definition subscript :: "'v \<Rightarrow> ('k \<times> 'v) list \<Rightarrow> 'k \<Rightarrow> 'v \<times> ('k \<times> 'v) list" where
  "subscript d m k =
     (case map_of m k of
        Some v \<Rightarrow> (v, m)
      | None \<Rightarrow> (d, AList.update k d m))"

definition nopNode :: "'p node" where
  "nopNode = \<lparr>kind = Nop, type = none, children = []\<rparr>"

text \<open>\<^verbatim>\<open>Builder::makeNop\<close>: a new node in the arena.\<close>

definition makeNop :: "'p licm \<Rightarrow> expr_id \<times> 'p licm" where
  "makeNop st =
     (next_id st,
      st\<lparr>heap := (heap st)\<lparr>nodes := (nodes (heap st))(next_id st := nopNode)\<rparr>,
         next_id := Suc (next_id st)\<rparr>)"

section \<open>The loop-nesting classifier\<close>

text \<open>
  \<^verbatim>\<open>visitExpression\<close> and \<^verbatim>\<open>doStartLoop\<close> (lines 75 to 101) run inside the walk that
  builds the CFG. What they read of the walker is passed in: the current basic block
  (which may be null), the stack of the enclosing control-flow nodes, outermost first,
  and the slot the walker is at. \<open>loopParent\<close> is the search of the stack from the
  index \<open>i\<close> downwards for a loop.
\<close>

function loopParent :: "'p heap \<Rightarrow> expr_id list \<Rightarrow> nat \<Rightarrow> expr_id option" where
  "loopParent h controlFlowStack i =
     (if is_Loop (kind (nodes h (controlFlowStack ! i))) then Some (controlFlowStack ! i)
      else if i = 0 then None
      else loopParent h controlFlowStack (i - 1))"
  by pat_completeness auto
termination
  by (relation "measure (\<lambda>(h, s, i). i)") auto

definition pushItem :: "block_id \<Rightarrow> slot \<Rightarrow> 'p licm \<Rightarrow> 'p licm" where
  "pushItem b currp st =
     st\<lparr>cfg := (cfg st)(b := (cfg st b)\<lparr>items := items (cfg st b) @ [Some currp]\<rparr>)\<rparr>"

definition visitExpression :: "block_id option \<Rightarrow> expr_id list \<Rightarrow> slot \<Rightarrow> 'p licm \<Rightarrow> 'p licm" where
  "visitExpression currBasicBlock controlFlowStack currp st =
     (case currBasicBlock of
        None \<Rightarrow> st
      | Some b \<Rightarrow>
          let cur = slots (heap st) currp in
            if is_Loop (kind (nodes (heap st) cur)) then st
            else if length controlFlowStack = 0 then st
            else
              (case loopParent (heap st) controlFlowStack (length controlFlowStack - 1) of
                 None \<Rightarrow> st
               | Some loop \<Rightarrow>
                   (pushItem b currp st)
                     \<lparr>expressionLoops :=
                        AList.update cur (Some loop) (snd (subscript None (expressionLoops st) cur))\<rparr>))"

definition doStartLoop :: "block_id option \<Rightarrow> slot \<Rightarrow> 'p licm \<Rightarrow> 'p licm" where
  "doStartLoop currBasicBlock currp st =
     (case currBasicBlock of None \<Rightarrow> st | Some b \<Rightarrow> pushItem b currp st)"

section \<open>The hoisting engine\<close>

definition interestingToMove :: "'p heap \<Rightarrow> expr_id \<Rightarrow> bool" where
  "interestingToMove h cur \<longleftrightarrow> type (nodes h cur) = none \<and> \<not> is_Nop (kind (nodes h cur))"

text \<open>
  Lines 197 to 203 of \<^verbatim>\<open>move\<close>: a temporary no-op (a local variable, at an address
  that no node of the arena has) stands in the slot while the loop is analyzed, and
  the analyzer's \<^verbatim>\<open>branches\<close> flag is cleared.
\<close>

definition withPlaceholder :: "'p licm \<Rightarrow> slot \<Rightarrow> 'p heap" where
  "withPlaceholder st currp =
     (heap st)\<lparr>slots := (slots (heap st))(currp := next_id st),
               nodes := (nodes (heap st))(next_id st := nopNode)\<rparr>"

definition loopEffects :: "('p, 'e) analyzer \<Rightarrow> 'p licm \<Rightarrow> slot \<Rightarrow> expr_id \<Rightarrow> 'e effects_scheme" where
  "loopEffects A st currp loop = (A (withPlaceholder st currp) loop)\<lparr>branches := False\<rparr>"

definition move ::
  "('p, 'e) analyzer \<Rightarrow> 'e invalidates \<Rightarrow> slot \<Rightarrow> expr_id \<Rightarrow> 'p licm \<Rightarrow> failure + (bool \<times> 'p licm)" where
  "move A I currp loop st =
     (let cur = slots (heap st) currp in
      if \<not> interestingToMove (heap st) cur then Inl AssertionFailed
      else
        let (l, el) = subscript None (expressionLoops st) cur;
            st1 = st\<lparr>expressionLoops := el\<rparr>
        in
          if l \<noteq> Some loop then Inr (False, st1)
          else
            let myEffects = A (heap st1) cur in
              if calls myEffects \<or> branches myEffects then Inr (False, st1)
              else if I (loopEffects A st1 currp loop) myEffects then Inr (False, st1)
              else
                let (code, mc) = subscript [] (movedCode st1) loop;
                    st2 = st1\<lparr>movedCode := AList.update loop (code @ [cur]) mc\<rparr>;
                    (nop, st3) = makeNop st2
                in Inr (True, st3\<lparr>heap := (heap st3)\<lparr>slots := (slots (heap st3))(currp := nop)\<rparr>\<rparr>))"

text \<open>
  The body of the \<^verbatim>\<open>for\<close> loop over \<^verbatim>\<open>block->contents.items\<close> (lines 119 to
  137). The result is the item list as the loop leaves it (a moved item is nulled),
  the loop the scan is in, the \<^verbatim>\<open>stop\<close> flag and the state.
\<close>

definition consItem ::
  "slot option \<Rightarrow> failure + (slot option list \<times> 'x) \<Rightarrow> failure + (slot option list \<times> 'x)" where
  "consItem i r = (case r of Inl e \<Rightarrow> Inl e | Inr (its, x) \<Rightarrow> Inr (i # its, x))"

fun scanItems ::
  "('p, 'e) analyzer \<Rightarrow> 'e invalidates \<Rightarrow> slot option list \<Rightarrow> expr_id option \<Rightarrow> 'p licm
     \<Rightarrow> failure + (slot option list \<times> expr_id option \<times> bool \<times> 'p licm)" where
  "scanItems A I [] loop st = Inr ([], loop, False, st)"
| "scanItems A I (None # rest) loop st = consItem None (scanItems A I rest loop st)"
| "scanItems A I (Some currp # rest) loop st =
     (let cur = slots (heap st) currp in
      if is_Loop (kind (nodes (heap st) cur)) then
        consItem (Some currp) (scanItems A I rest (Some cur) (st\<lparr>loops := loops st @ [currp]\<rparr>))
      else
        (case loop of
           None \<Rightarrow> consItem (Some currp) (scanItems A I rest loop st)
         | Some l \<Rightarrow>
             if branches (A (heap st) cur) then Inr (Some currp # rest, loop, True, st)
             else if interestingToMove (heap st) cur then
               (case move A I currp l st of
                  Inl e \<Rightarrow> Inl e
                | Inr (moved, st') \<Rightarrow>
                    consItem (if moved then None else Some currp) (scanItems A I rest loop st'))
             else consItem (Some currp) (scanItems A I rest loop st)))"

text \<open>
  The \<^verbatim>\<open>while (1)\<close> of \<^verbatim>\<open>findAndMove\<close> (lines 116 to 144): one basic block after the
  other, as long as the block has a single successor and no branch was seen. Nothing in
  the source bounds the number of rounds, so the model counts them down from a fuel.
\<close>

definition setItems :: "block_id \<Rightarrow> slot option list \<Rightarrow> 'p licm \<Rightarrow> 'p licm" where
  "setItems block its st = st\<lparr>cfg := (cfg st)(block := (cfg st block)\<lparr>items := its\<rparr>)\<rparr>"

fun chain ::
  "nat \<Rightarrow> ('p, 'e) analyzer \<Rightarrow> 'e invalidates \<Rightarrow> block_id \<Rightarrow> expr_id option \<Rightarrow> 'p licm
     \<Rightarrow> failure + 'p licm" where
  "chain 0 A I block loop st = Inl OutOfFuel"
| "chain (Suc n) A I block loop st =
     (case scanItems A I (items (cfg st block)) loop st of
        Inl e \<Rightarrow> Inl e
      | Inr (its, loop', stop, st') \<Rightarrow>
          let st'' = setItems block its st' in
            if stop \<or> length (out (cfg st'' block)) \<noteq> 1 then Inr st''
            else chain n A I (hd (out (cfg st'' block))) loop' st'')"

text \<open>The \<^verbatim>\<open>for\<close> loop over \<^verbatim>\<open>basicBlocks\<close> (line 113): a chain from every block.\<close>

fun startChains ::
  "nat \<Rightarrow> ('p, 'e) analyzer \<Rightarrow> 'e invalidates \<Rightarrow> block_id list \<Rightarrow> 'p licm \<Rightarrow> failure + 'p licm" where
  "startChains n A I [] st = Inr st"
| "startChains n A I (startBlock # bs) st =
     (case chain n A I startBlock None st of
        Inl e \<Rightarrow> Inl e
      | Inr st' \<Rightarrow> startChains n A I bs st')"

section \<open>The materializer\<close>

text \<open>
  Modelled from the spec: the \<^verbatim>\<open>Builder\<close> and \<^verbatim>\<open>Block\<close> of \<^verbatim>\<open>wasm-builder.h\<close> and
  \<^verbatim>\<open>wasm.h\<close>, which are not part of the sources at hand. They construct sequencing
  wrapper expressions with a specified result type: \<open>makeBlock\<close> allocates a block
  whose list holds the given expressions, each in a slot of its own, \<open>push_back\<close>
  appends one more, and \<open>finalize\<close> sets the result type.
\<close>

definition storeList :: "slot \<Rightarrow> expr_id list \<Rightarrow> (slot \<Rightarrow> expr_id) \<Rightarrow> slot \<Rightarrow> expr_id" where
  "storeList base xs s = (\<lambda>p. if base \<le> p \<and> p < base + length xs then xs ! (p - base) else s p)"

definition makeBlock :: "expr_id list \<Rightarrow> 'p licm \<Rightarrow> expr_id \<times> 'p licm" where
  "makeBlock xs st =
     (next_id st,
      st\<lparr>heap := \<lparr>slots = storeList (next_slot st) xs (slots (heap st)),
                  nodes = (nodes (heap st))
                    (next_id st := \<lparr>kind = Block, type = none,
                                    children = [next_slot st ..< next_slot st + length xs]\<rparr>)\<rparr>,
         next_id := Suc (next_id st),
         next_slot := next_slot st + length xs\<rparr>)"

definition push_back :: "expr_id \<Rightarrow> expr_id \<Rightarrow> 'p licm \<Rightarrow> 'p licm" where
  "push_back b x st =
     st\<lparr>heap := \<lparr>slots = (slots (heap st))(next_slot st := x),
                 nodes = (nodes (heap st))
                   (b := (nodes (heap st) b)\<lparr>children := children (nodes (heap st) b) @ [next_slot st]\<rparr>)\<rparr>,
        next_slot := Suc (next_slot st)\<rparr>"

definition finalize :: "expr_id \<Rightarrow> wasm_type \<Rightarrow> 'p licm \<Rightarrow> 'p licm" where
  "finalize b t st =
     st\<lparr>heap := (heap st)\<lparr>nodes := (nodes (heap st))(b := (nodes (heap st) b)\<lparr>type := t\<rparr>)\<rparr>\<rparr>"

text \<open>
  \<^verbatim>\<open>UpdateLoops::visitLoop\<close> (lines 152 to 162), at the slot \<open>currp\<close> the walker is at;
  \<^verbatim>\<open>replaceCurrent\<close> writes that slot.
\<close>

definition visitLoop :: "slot \<Rightarrow> 'p licm \<Rightarrow> 'p licm" where
  "visitLoop currp st =
     (let cur = slots (heap st) currp;
          (currMovedCode, mc) = subscript [] (movedCode st) cur;
          st1 = st\<lparr>movedCode := mc\<rparr>
      in
        if currMovedCode \<noteq> [] then
          let (ret, st2) = makeBlock currMovedCode st1;
              st3 = push_back ret cur st2;
              st4 = finalize ret (type (nodes (heap st3) cur)) st3
          in st4\<lparr>heap := (heap st4)\<lparr>slots := (slots (heap st4))(currp := ret)\<rparr>\<rparr>
        else st1)"

text \<open>
  Modelled from the spec: the \<^verbatim>\<open>PostWalker\<close> of \<^verbatim>\<open>wasm-traversal.h\<close>, which is not
  part of the sources at hand: a single post-order walk, the children of a node
  before the node itself, that calls \<open>visitLoop\<close> at every loop. The walk follows
  the store, which need not be a tree, so it counts its depth down from a fuel.
\<close>

fun walk :: "nat \<Rightarrow> slot \<Rightarrow> 'p licm \<Rightarrow> failure + 'p licm"
  and walkList :: "nat \<Rightarrow> slot list \<Rightarrow> 'p licm \<Rightarrow> failure + 'p licm" where
  "walk 0 currp st = Inl OutOfFuel"
| "walk (Suc n) currp st =
     (let cur = slots (heap st) currp in
      case walkList n (children (nodes (heap st) cur)) st of
        Inl e \<Rightarrow> Inl e
      | Inr st' \<Rightarrow> Inr (if is_Loop (kind (nodes (heap st) cur)) then visitLoop currp st' else st'))"
| "walkList n [] st = Inr st"
| "walkList n (c # cs) st =
     (case walk n c st of
        Inl e \<Rightarrow> Inl e
      | Inr st' \<Rightarrow> walkList n cs st')"

text \<open>
  \<^verbatim>\<open>findAndMove\<close>: the scan from every basic block, then the final walk from the slot
  of the function's body when some code was moved.
\<close>

definition findAndMove ::
  "nat \<Rightarrow> ('p, 'e) analyzer \<Rightarrow> 'e invalidates \<Rightarrow> slot \<Rightarrow> 'p licm \<Rightarrow> failure + 'p licm" where
  "findAndMove n A I body st =
     (case startChains n A I (basicBlocks st) (st\<lparr>loops := []\<rparr>) of
        Inl e \<Rightarrow> Inl e
      | Inr st' \<Rightarrow> if movedCode st' = [] then Inr st' else walk n body st')"

section \<open>Notions used in the statements\<close>

definition attribution :: "'p licm \<Rightarrow> expr_id \<Rightarrow> expr_id option" where
  "attribution st e = fst (subscript None (expressionLoops st) e)"

definition movedOf :: "'p licm \<Rightarrow> expr_id \<Rightarrow> expr_id list" where
  "movedOf st l = fst (subscript [] (movedCode st) l)"

definition nulled :: "slot option list \<Rightarrow> slot option list \<Rightarrow> bool" where
  "nulled its its' \<longleftrightarrow> list_all2 (\<lambda>a b. b = a \<or> b = None) its its'"

definition preserved0 ::
  "('p, 'e) analyzer \<Rightarrow> 'e invalidates \<Rightarrow> ('p licm \<Rightarrow> 'p licm \<Rightarrow> bool) \<Rightarrow> (slot \<Rightarrow> bool) \<Rightarrow> bool" where
  "preserved0 A I R Q \<longleftrightarrow>
     (\<forall>s. R s s) \<and>
     (\<forall>a b c. R a b \<longrightarrow> R b c \<longrightarrow> R a c) \<and>
     (\<forall>p l s ok s'. Q p \<longrightarrow> move A I p l s = Inr (ok, s') \<longrightarrow> R s s') \<and>
     (\<forall>s x. R s (s\<lparr>loops := x\<rparr>))"

definition preserved ::
  "('p, 'e) analyzer \<Rightarrow> 'e invalidates \<Rightarrow> ('p licm \<Rightarrow> 'p licm \<Rightarrow> bool) \<Rightarrow> (slot \<Rightarrow> bool) \<Rightarrow> bool" where
  "preserved A I R Q \<longleftrightarrow>
     preserved0 A I R Q \<and> (\<forall>s b its. nulled (items (cfg s b)) its \<longrightarrow> R s (setItems b its s))"

definition shrunk :: "'p licm \<Rightarrow> 'p licm \<Rightarrow> bool" where
  "shrunk s s' \<longleftrightarrow>
     basicBlocks s' = basicBlocks s \<and>
     (\<forall>b. nulled (items (cfg s b)) (items (cfg s' b)) \<and> out (cfg s' b) = out (cfg s b))"

definition grows :: "'p licm \<Rightarrow> 'p licm \<Rightarrow> bool" where
  "grows s s' \<longleftrightarrow>
     next_id s \<le> next_id s' \<and>
     (\<forall>k. nodes (heap s') k = nodes (heap s) k \<or>
          (next_id s \<le> k \<and> k < next_id s' \<and> nodes (heap s') k = nopNode)) \<and>
     (\<forall>e. attribution s' e = attribution s e) \<and>
     (\<forall>l. \<exists>ys. movedOf s' l = movedOf s l @ ys \<and>
          (\<forall>e \<in> set ys. interestingToMove (heap s) e \<and> attribution s e = Some l))"

definition nopKept :: "'p licm \<Rightarrow> 'p licm \<Rightarrow> bool" where
  "nopKept s s' \<longleftrightarrow>
     next_id s \<le> next_id s' \<and> next_slot s \<le> next_slot s' \<and>
     (\<forall>k < next_id s. nodes (heap s') k = nodes (heap s) k) \<and>
     (\<forall>p < next_slot s. slots (heap s) p < next_id s \<longrightarrow>
        is_Nop (kind (nodes (heap s) (slots (heap s) p))) \<longrightarrow>
        slots (heap s') p = slots (heap s) p)"

definition somes :: "'a option list \<Rightarrow> 'a list" where
  "somes xs = [x. Some x \<leftarrow> xs]"

text \<open>
  The scan of a list of items followed by the scan of more items: what the second scan
  adds when the first one has not stopped.
\<close>

definition thenItems ::
  "failure + (slot option list \<times> expr_id option \<times> bool \<times> 'p licm) \<Rightarrow>
   (expr_id option \<Rightarrow> 'p licm \<Rightarrow> failure + (slot option list \<times> expr_id option \<times> bool \<times> 'p licm)) \<Rightarrow>
   slot option list \<Rightarrow>
   failure + (slot option list \<times> expr_id option \<times> bool \<times> 'p licm)" where
  "thenItems r k rest =
     (case r of
        Inl e \<Rightarrow> Inl e
      | Inr (pre', l, stop, s) \<Rightarrow>
          if stop then Inr (pre' @ rest, l, True, s)
          else (case k l s of Inl e \<Rightarrow> Inl e | Inr (rest', x) \<Rightarrow> Inr (pre' @ rest', x)))"

text \<open>
  The chain and the loop over \<^verbatim>\<open>basicBlocks\<close> once more, returning beside the state
  the blocks whose items each chain scans, in the order of the scan.
\<close>

fun chainTrace ::
  "nat \<Rightarrow> ('p, 'e) analyzer \<Rightarrow> 'e invalidates \<Rightarrow> block_id \<Rightarrow> expr_id option \<Rightarrow> 'p licm
     \<Rightarrow> failure + (block_id list \<times> 'p licm)" where
  "chainTrace 0 A I block loop st = Inl OutOfFuel"
| "chainTrace (Suc n) A I block loop st =
     (case scanItems A I (items (cfg st block)) loop st of
        Inl e \<Rightarrow> Inl e
      | Inr (its, loop', stop, st') \<Rightarrow>
          let st'' = setItems block its st' in
            if stop \<or> length (out (cfg st'' block)) \<noteq> 1 then Inr ([block], st'')
            else (case chainTrace n A I (hd (out (cfg st'' block))) loop' st'' of
                    Inl e \<Rightarrow> Inl e
                  | Inr (bs, s) \<Rightarrow> Inr (block # bs, s)))"

fun startChainsTrace ::
  "nat \<Rightarrow> ('p, 'e) analyzer \<Rightarrow> 'e invalidates \<Rightarrow> block_id list \<Rightarrow> 'p licm
     \<Rightarrow> failure + (block_id list list \<times> 'p licm)" where
  "startChainsTrace n A I [] st = Inr ([], st)"
| "startChainsTrace n A I (startBlock # bs) st =
     (case chainTrace n A I startBlock None st of
        Inl e \<Rightarrow> Inl e
      | Inr (t, st') \<Rightarrow>
          (case startChainsTrace n A I bs st' of
             Inl e \<Rightarrow> Inl e
           | Inr (ts, s) \<Rightarrow> Inr (t # ts, s)))"

text \<open>
  The slots of the tree under a slot, the slot itself first and then the trees under the
  children of the node it holds; \<open>None\<close> when the tree is deeper than the fuel. A
  list of slots is placed when no slot occurs in it twice, every slot is one of the
  arena, and so is the node it holds: the slots of a tree in which every expression has
  one parent are placed.
\<close>

fun subtree :: "nat \<Rightarrow> 'p heap \<Rightarrow> slot \<Rightarrow> slot list option"
  and subtrees :: "nat \<Rightarrow> 'p heap \<Rightarrow> slot list \<Rightarrow> slot list option" where
  "subtree 0 h p = None"
| "subtree (Suc n) h p =
     (case subtrees n h (children (nodes h (slots h p))) of
        None \<Rightarrow> None
      | Some xs \<Rightarrow> Some (p # xs))"
| "subtrees n h [] = Some []"
| "subtrees n h (c # cs) =
     (case subtree n h c of
        None \<Rightarrow> None
      | Some xs \<Rightarrow> (case subtrees n h cs of None \<Rightarrow> None | Some ys \<Rightarrow> Some (xs @ ys)))"

definition placed :: "'p licm \<Rightarrow> slot list \<Rightarrow> bool" where
  "placed st S \<longleftrightarrow> distinct S \<and> (\<forall>q \<in> set S. q < next_slot st \<and> slots (heap st) q < next_id st)"

text \<open>
  What the final walk does to a slot: a slot is affected when it holds a loop whose moved
  code is not empty; it is wrapped when it holds a new block of the loop's type whose
  new child slots hold the moved code, in its order, and then the loop. A state is the
  result of the walk of a set of slots when the affected slots of the set are wrapped,
  every other slot and every node of the earlier state is as before, the moved code is
  as before, and every new slot is a child of one of the new blocks.
\<close>

definition affected :: "'p licm \<Rightarrow> slot \<Rightarrow> bool" where
  "affected st q \<longleftrightarrow>
     is_Loop (kind (nodes (heap st) (slots (heap st) q))) \<and> movedOf st (slots (heap st) q) \<noteq> []"

definition wrapped :: "'p licm \<Rightarrow> 'p licm \<Rightarrow> slot \<Rightarrow> bool" where
  "wrapped st st' q \<longleftrightarrow>
     next_id st \<le> slots (heap st') q \<and> slots (heap st') q < next_id st' \<and>
     is_Block (kind (nodes (heap st') (slots (heap st') q))) \<and>
     type (nodes (heap st') (slots (heap st') q)) = type (nodes (heap st) (slots (heap st) q)) \<and>
     map (slots (heap st')) (children (nodes (heap st') (slots (heap st') q))) =
       movedOf st (slots (heap st) q) @ [slots (heap st) q] \<and>
     (\<forall>c \<in> set (children (nodes (heap st') (slots (heap st') q))). next_slot st \<le> c \<and> c < next_slot st')"

definition walked :: "slot set \<Rightarrow> 'p licm \<Rightarrow> 'p licm \<Rightarrow> bool" where
  "walked X st st' \<longleftrightarrow>
     next_id st \<le> next_id st' \<and> next_slot st \<le> next_slot st' \<and>
     (\<forall>k < next_id st. nodes (heap st') k = nodes (heap st) k) \<and>
     (\<forall>l. movedOf st' l = movedOf st l) \<and>
     (\<forall>q < next_slot st.
        if q \<in> X \<and> affected st q then wrapped st st' q
        else slots (heap st') q = slots (heap st) q) \<and>
     (\<forall>c. next_slot st \<le> c \<longrightarrow> c < next_slot st' \<longrightarrow>
        (\<exists>q \<in> X. q < next_slot st \<and> affected st q \<and>
           c \<in> set (children (nodes (heap st') (slots (heap st') q)))))"

text \<open>
  A set \<open>T\<close> of slots (those of the function's tree) owns its expressions when every slot
  of \<open>T\<close> is allocated and holds an allocated node, no two slots of \<open>T\<close> hold the same
  node, no moved-code list has a duplicate, no expression is in the lists of two loops,
  and a moved expression is an allocated node that no slot of \<open>T\<close> holds.
\<close>

definition owned :: "slot set \<Rightarrow> 'p licm \<Rightarrow> bool" where
  "owned T st \<longleftrightarrow>
     (\<forall>p \<in> T. p < next_slot st \<and> slots (heap st) p < next_id st) \<and>
     inj_on (slots (heap st)) T \<and>
     (\<forall>l. distinct (movedOf st l)) \<and>
     (\<forall>l l'. l \<noteq> l' \<longrightarrow> set (movedOf st l) \<inter> set (movedOf st l') = {}) \<and>
     (\<forall>l. \<forall>e \<in> set (movedOf st l). e < next_id st \<and> (\<forall>p \<in> T. slots (heap st) p \<noteq> e))"


text \<open>
  The successors of the blocks of a state. A block is straight within \<open>n\<close> when the
  walk from it along single successors comes, in fewer than \<open>n\<close> steps, to a block that
  has no successor or several: the chain from such a block ends, whatever it scans.
\<close>

definition outs :: "'p licm \<Rightarrow> block_id \<Rightarrow> block_id list" where
  "outs st = (\<lambda>b. out (cfg st b))"

fun straight :: "nat \<Rightarrow> (block_id \<Rightarrow> block_id list) \<Rightarrow> block_id \<Rightarrow> bool" where
  "straight 0 succs b = False"
| "straight (Suc n) succs b = (length (succs b) \<noteq> 1 \<or> straight n succs (hd (succs b)))"



definition treeKept :: "nat \<Rightarrow> slot \<Rightarrow> 'p licm \<Rightarrow> 'p licm \<Rightarrow> bool" where
  "treeKept n body s s' \<longleftrightarrow>
     (\<forall>S. subtree n (heap s) body = Some S \<longrightarrow> (\<forall>q \<in> set S. slots (heap s) q < next_id s) \<longrightarrow>
        (\<exists>S'. subtree n (heap s') body = Some S' \<and> subseq S' S \<and>
              (\<forall>q \<in> set S'. slots (heap s') q < next_id s')))"

section \<open>A concrete function\<close>

text \<open>
  The kinds of expression, other than loops, blocks and no-ops, that the function below
  is made of: reads and writes of locals, constants, 32-bit addition and subtraction, a
  conditional branch to the loop or block given by its node, and a call.
\<close>

datatype instr = GetLocal nat | SetLocal nat | Const "32 word" | Add | Sub | BrIf expr_id | Call nat

text \<open>
  Modelled from the spec: the Effect Oracle (\<^verbatim>\<open>EffectAnalyzer\<close> of \<^verbatim>\<open>ir/effects.h\<close>,
  which is not part of the sources at hand). The effect set of a subtree holds the
  storage locations it reads and writes, or that its effects are unknown, the presence
  of calls, of control transfers and of traps; it is the union of the effects of the
  nodes of the subtree. An effect set \<open>a\<close> invalidates \<open>b\<close> when \<open>a\<close> writes a location
  that \<open>b\<close> reads, or reads or writes a location that \<open>b\<close> writes, or either side has
  an effect the oracle cannot bound.
\<close>

record summary = effects +
  reads :: "nat set"
  writes :: "nat set"
  unknown :: bool
  traps :: bool

definition noEffects :: summary where
  "noEffects = \<lparr>calls = False, branches = False, reads = {}, writes = {}, unknown = False, traps = False\<rparr>"

definition combine :: "summary \<Rightarrow> summary \<Rightarrow> summary" where
  "combine a b =
     \<lparr>calls = calls a \<or> calls b, branches = branches a \<or> branches b,
      reads = reads a \<union> reads b, writes = writes a \<union> writes b,
      unknown = unknown a \<or> unknown b, traps = traps a \<or> traps b\<rparr>"

fun ownEffects :: "instr expr_kind \<Rightarrow> summary" where
  "ownEffects (Other (GetLocal i)) = noEffects\<lparr>reads := {i}\<rparr>"
| "ownEffects (Other (SetLocal i)) = noEffects\<lparr>writes := {i}\<rparr>"
| "ownEffects (Other (BrIf t)) = noEffects\<lparr>branches := True\<rparr>"
| "ownEffects (Other (Call f)) = noEffects\<lparr>calls := True, unknown := True\<rparr>"
| "ownEffects k = noEffects"

fun effectsOf :: "nat \<Rightarrow> instr heap \<Rightarrow> expr_id \<Rightarrow> summary" where
  "effectsOf 0 h e = noEffects\<lparr>unknown := True\<rparr>"
| "effectsOf (Suc n) h e =
     foldl combine (ownEffects (kind (nodes h e)))
       (map (\<lambda>c. effectsOf n h (slots h c)) (children (nodes h e)))"

definition conflicts :: "summary \<Rightarrow> summary \<Rightarrow> bool" where
  "conflicts a b \<longleftrightarrow>
     writes a \<inter> reads b \<noteq> {} \<or> (reads a \<union> writes a) \<inter> writes b \<noteq> {} \<or> unknown a \<or> unknown b"

text \<open>
  The function
  \<^verbatim>\<open>(block (result i32)
     (loop $l (block
       (set_local $x (i32.add (get_local $x) (i32.const 1)))
       (set_local $y (i32.sub (get_local $y) (i32.const 1)))
       (br_if $l (get_local $y))))
     (get_local $x))\<close>
  with the node \<open>k\<close> in the slot \<open>100 + k\<close>, the basic blocks of its CFG (the entry
  block, which ends where the loop starts; the top of the loop, which ends at the
  branch; the rest of the loop; the code after the loop), and every expression inside
  the loop attributed to it, in the order of the walk.
\<close>

definition exNodes :: "instr node list" where
  "exNodes =
    [\<lparr>kind = Block, type = i32, children = [101, 102]\<rparr>,
     \<lparr>kind = Loop, type = none, children = [103]\<rparr>,
     \<lparr>kind = Other (GetLocal 0), type = i32, children = []\<rparr>,
     \<lparr>kind = Block, type = none, children = [104, 105, 106]\<rparr>,
     \<lparr>kind = Other (SetLocal 0), type = none, children = [107]\<rparr>,
     \<lparr>kind = Other (SetLocal 1), type = none, children = [110]\<rparr>,
     \<lparr>kind = Other (BrIf 1), type = none, children = [113]\<rparr>,
     \<lparr>kind = Other Add, type = i32, children = [108, 109]\<rparr>,
     \<lparr>kind = Other (GetLocal 0), type = i32, children = []\<rparr>,
     \<lparr>kind = Other (Const 1), type = i32, children = []\<rparr>,
     \<lparr>kind = Other Sub, type = i32, children = [111, 112]\<rparr>,
     \<lparr>kind = Other (GetLocal 1), type = i32, children = []\<rparr>,
     \<lparr>kind = Other (Const 1), type = i32, children = []\<rparr>,
     \<lparr>kind = Other (GetLocal 1), type = i32, children = []\<rparr>]"

definition exHeap :: "instr heap" where
  "exHeap = \<lparr>slots = (\<lambda>p. p - 100), nodes = (\<lambda>e. if e < 14 then exNodes ! e else nopNode)\<rparr>"

definition exBlocks :: "bblock list" where
  "exBlocks =
    [\<lparr>items = [Some 101], out = [1]\<rparr>,
     \<lparr>items = map Some [108, 109, 107, 104, 111, 112, 110, 105, 113, 106], out = [2, 1]\<rparr>,
     \<lparr>items = [Some 103], out = [3]\<rparr>,
     \<lparr>items = [], out = []\<rparr>]"

definition exState :: "instr licm" where
  "exState =
    \<lparr>heap = exHeap, next_id = 14, next_slot = 114,
     cfg = (\<lambda>b. if b < 4 then exBlocks ! b else \<lparr>items = [], out = []\<rparr>),
     basicBlocks = [0, 1, 2, 3],
     expressionLoops = map (\<lambda>e. (e, Some 1)) [8, 9, 7, 4, 11, 12, 10, 5, 13, 6, 3],
     movedCode = [],
     loops = []\<rparr>"

text \<open>The state after the first statement of the loop has been moved.\<close>

definition exMoved :: "instr licm" where
  "exMoved =
     exState\<lparr>movedCode := [(1, [4])],
             heap := \<lparr>slots = (slots exHeap)(104 := 14), nodes = (nodes exHeap)(14 := nopNode)\<rparr>,
             next_id := 15\<rparr>"

text \<open>
  A second function, with a loop inside a loop:
  \<^verbatim>\<open>(loop $k (loop $m (block
     (set_local $x (i32.const 1))
     (br_if $k (get_local $y)))))\<close>
  again with the node \<open>k\<close> in the slot \<open>100 + k\<close>, and its basic blocks.
\<close>

definition exNestedNodes :: "instr node list" where
  "exNestedNodes =
    [\<lparr>kind = Loop, type = none, children = [101]\<rparr>,
     \<lparr>kind = Loop, type = none, children = [102]\<rparr>,
     \<lparr>kind = Block, type = none, children = [103, 104]\<rparr>,
     \<lparr>kind = Other (SetLocal 0), type = none, children = [105]\<rparr>,
     \<lparr>kind = Other (BrIf 0), type = none, children = [106]\<rparr>,
     \<lparr>kind = Other (Const 1), type = i32, children = []\<rparr>,
     \<lparr>kind = Other (GetLocal 1), type = i32, children = []\<rparr>]"

definition exNestedBlocks :: "bblock list" where
  "exNestedBlocks =
    [\<lparr>items = [Some 100], out = [1]\<rparr>,
     \<lparr>items = [Some 101], out = [2]\<rparr>,
     \<lparr>items = map Some [105, 103, 106, 104], out = [3, 1]\<rparr>,
     \<lparr>items = [Some 102], out = [4]\<rparr>,
     \<lparr>items = [], out = [5]\<rparr>,
     \<lparr>items = [], out = []\<rparr>]"

definition exNested :: "instr licm" where
  "exNested =
    \<lparr>heap = \<lparr>slots = (\<lambda>p. p - 100),
              nodes = (\<lambda>e. if e < 7 then exNestedNodes ! e else nopNode)\<rparr>,
     next_id = 7, next_slot = 107,
     cfg = (\<lambda>b. if b < 6 then exNestedBlocks ! b else \<lparr>items = [], out = []\<rparr>),
     basicBlocks = [0, 1, 2, 3, 4, 5],
     expressionLoops = map (\<lambda>e. (e, Some 1)) [5, 3, 6, 4, 2],
     movedCode = [],
     loops = []\<rparr>"

text \<open>
  The calls of \<^verbatim>\<open>doStartLoop\<close> and \<^verbatim>\<open>visitExpression\<close> that the walk of the first
  function makes, each with the current basic block and the control-flow stack, and the
  state before them, with no items and no attribution.
\<close>

datatype event = Visit "block_id option" "expr_id list" slot | StartLoop "block_id option" slot

fun classify :: "event \<Rightarrow> 'p licm \<Rightarrow> 'p licm" where
  "classify (Visit b stack currp) st = visitExpression b stack currp st"
| "classify (StartLoop b currp) st = doStartLoop b currp st"

definition exEvents :: "event list" where
  "exEvents =
     StartLoop (Some 0) 101 #
     map (Visit (Some 1) [0, 1, 3]) [108, 109, 107, 104, 111, 112, 110, 105, 113, 106] @
     [Visit (Some 2) [0, 1, 3] 103, Visit (Some 2) [0, 1] 101,
      Visit (Some 3) [0] 102, Visit (Some 3) [0] 100]"

definition exUnclassified :: "instr licm" where
  "exUnclassified =
     exState\<lparr>cfg := (\<lambda>b. (cfg exState b)\<lparr>items := []\<rparr>), expressionLoops := []\<rparr>"

text \<open>
  A third function, with a statement inside a statement, in a loop inside a loop:
  \<^verbatim>\<open>(block (result i32)
     (loop $k (loop $m (block
       (set_local $y (block (result i32)
         (set_local $x (i32.const 1))
         (get_local $x)))
       (br_if $k (get_local $c)))))
     (get_local $y))\<close>
  with the node \<open>k\<close> in the slot \<open>100 + k\<close>, the basic blocks of its CFG (the entry
  block, the top of the outer loop, the top of the inner loop, which ends at the branch,
  the rest of the inner loop, the rest of the outer loop, the code after the loops),
  and every expression inside the inner loop attributed to it, in the order of the walk.
\<close>

definition exOrderNodes :: "instr node list" where
  "exOrderNodes =
    [\<lparr>kind = Block, type = i32, children = [101, 102]\<rparr>,
     \<lparr>kind = Loop, type = none, children = [103]\<rparr>,
     \<lparr>kind = Other (GetLocal 1), type = i32, children = []\<rparr>,
     \<lparr>kind = Loop, type = none, children = [104]\<rparr>,
     \<lparr>kind = Block, type = none, children = [105, 106]\<rparr>,
     \<lparr>kind = Other (SetLocal 1), type = none, children = [107]\<rparr>,
     \<lparr>kind = Other (BrIf 1), type = none, children = [108]\<rparr>,
     \<lparr>kind = Block, type = i32, children = [109, 110]\<rparr>,
     \<lparr>kind = Other (GetLocal 2), type = i32, children = []\<rparr>,
     \<lparr>kind = Other (SetLocal 0), type = none, children = [111]\<rparr>,
     \<lparr>kind = Other (GetLocal 0), type = i32, children = []\<rparr>,
     \<lparr>kind = Other (Const 1), type = i32, children = []\<rparr>]"

definition exOrderBlocks :: "bblock list" where
  "exOrderBlocks =
    [\<lparr>items = [Some 101], out = [1]\<rparr>,
     \<lparr>items = [Some 103], out = [2]\<rparr>,
     \<lparr>items = map Some [111, 109, 110, 107, 105, 108, 106], out = [3, 1]\<rparr>,
     \<lparr>items = [Some 104], out = [4]\<rparr>,
     \<lparr>items = [], out = [5]\<rparr>,
     \<lparr>items = [], out = []\<rparr>]"

definition exOrder :: "instr licm" where
  "exOrder =
    \<lparr>heap = \<lparr>slots = (\<lambda>p. p - 100),
              nodes = (\<lambda>e. if e < 12 then exOrderNodes ! e else nopNode)\<rparr>,
     next_id = 12, next_slot = 112,
     cfg = (\<lambda>b. if b < 6 then exOrderBlocks ! b else \<lparr>items = [], out = []\<rparr>),
     basicBlocks = [0, 1, 2, 3, 4, 5],
     expressionLoops = map (\<lambda>e. (e, Some 3)) [11, 9, 10, 7, 5, 8, 6, 4],
     movedCode = [],
     loops = []\<rparr>"

text \<open>
  The calls of \<^verbatim>\<open>doStartLoop\<close> and \<^verbatim>\<open>visitExpression\<close> that the walk of the third
  function makes, and the state before them.
\<close>

definition exOrderEvents :: "event list" where
  "exOrderEvents =
     [StartLoop (Some 0) 101, StartLoop (Some 1) 103] @
     map (Visit (Some 2) [0, 1, 3, 4, 7]) [111, 109, 110, 107] @
     map (Visit (Some 2) [0, 1, 3, 4]) [105, 108, 106] @
     [Visit (Some 3) [0, 1, 3, 4] 104, Visit (Some 3) [0, 1, 3] 103, Visit (Some 4) [0, 1] 101,
      Visit (Some 5) [0] 102, Visit (Some 5) [0] 100]"

definition exOrderUnclassified :: "instr licm" where
  "exOrderUnclassified =
     exOrder\<lparr>cfg := (\<lambda>b. (cfg exOrder b)\<lparr>items := []\<rparr>), expressionLoops := []\<rparr>"

section \<open>Running a function body\<close>

text \<open>
  A reference interpreter for the expressions of the concrete functions, to read off what
  a body computes before and after the pass. It follows WebAssembly: the children of an
  expression are evaluated in order; a loop runs its body again when the body branches
  to the loop and ends when the body falls through; a branch to a block ends the block; a
  conditional branch is taken when its operand is not zero; arithmetic is on 32-bit
  words. Calls are not interpreted. A result \<open>None\<close> means that the fuel ran out or that
  the expression is not one the interpreter knows. \<open>run\<close> gives the value of the
  body and the final values of the locals, from the given initial values.
\<close>

datatype flow = Next | Jump expr_id

type_synonym locals = "nat \<Rightarrow> 32 word"

fun exec :: "nat \<Rightarrow> instr heap \<Rightarrow> expr_id \<Rightarrow> locals \<Rightarrow> (32 word option \<times> flow \<times> locals) option"
  and execList :: "nat \<Rightarrow> instr heap \<Rightarrow> slot list \<Rightarrow> 32 word option list \<Rightarrow> locals
      \<Rightarrow> (32 word option list \<times> flow \<times> locals) option" where
  "exec 0 h e s = None"
| "exec (Suc n) h e s =
     (case execList n h (children (nodes h e)) [] s of
        None \<Rightarrow> None
      | Some (vs, Jump t, s') \<Rightarrow>
          (case kind (nodes h e) of
             Loop \<Rightarrow> if t = e then exec n h e s' else Some (None, Jump t, s')
           | Block \<Rightarrow> if t = e then Some (None, Next, s') else Some (None, Jump t, s')
           | _ \<Rightarrow> Some (None, Jump t, s'))
      | Some (vs, Next, s') \<Rightarrow>
          (case (kind (nodes h e), vs) of
             (Nop, []) \<Rightarrow> Some (None, Next, s')
           | (Loop, [v]) \<Rightarrow> Some (v, Next, s')
           | (Block, _) \<Rightarrow> Some (if vs = [] then None else last vs, Next, s')
           | (Other (GetLocal i), []) \<Rightarrow> Some (Some (s' i), Next, s')
           | (Other (Const c), []) \<Rightarrow> Some (Some c, Next, s')
           | (Other (SetLocal i), [Some v]) \<Rightarrow> Some (None, Next, s'(i := v))
           | (Other Add, [Some a, Some b]) \<Rightarrow> Some (Some (a + b), Next, s')
           | (Other Sub, [Some a, Some b]) \<Rightarrow> Some (Some (a - b), Next, s')
           | (Other (BrIf t), [Some c]) \<Rightarrow> Some (None, if c \<noteq> 0 then Jump t else Next, s')
           | _ \<Rightarrow> None))"
| "execList n h [] vs s = Some (vs, Next, s)"
| "execList n h (c # cs) vs s =
     (case exec n h (slots h c) s of
        None \<Rightarrow> None
      | Some (v, Jump t, s') \<Rightarrow> Some (vs, Jump t, s')
      | Some (v, Next, s') \<Rightarrow> execList n h cs (vs @ [v]) s')"

definition run :: "nat \<Rightarrow> instr heap \<Rightarrow> slot \<Rightarrow> 32 word list \<Rightarrow> (32 word option \<times> 32 word list) option" where
  "run n h body args =
     (case exec n h (slots h body) (\<lambda>i. if i < length args then args ! i else 0) of
        None \<Rightarrow> None
      | Some (v, f, s) \<Rightarrow> Some (v, map s [0..<length args]))"

section \<open>Properties of the scan\<close>

lemma fst_subscript: "fst (subscript d m k) = (case map_of m k of Some v \<Rightarrow> v | None \<Rightarrow> d)"
  by (simp add: subscript_def split: option.splits)

lemma subscript_again: "fst (subscript d (snd (subscript d m k)) k') = fst (subscript d m k')"
  by (auto simp: subscript_def update_conv' split: option.splits)

lemma move_cases:
  assumes "interestingToMove (heap st) (slots (heap st) currp)"
  shows "move A I currp loop st =
     (let cur = slots (heap st) currp;
          st1 = st\<lparr>expressionLoops := snd (subscript None (expressionLoops st) cur)\<rparr> in
      if attribution st cur \<noteq> Some loop \<or> calls (A (heap st) cur) \<or> branches (A (heap st) cur)
         \<or> I (loopEffects A st currp loop) (A (heap st) cur)
      then Inr (False, st1)
      else Inr (True, st1\<lparr>movedCode := AList.update loop (movedOf st loop @ [cur]) (movedCode st),
              heap := \<lparr>slots = (slots (heap st))(currp := next_id st), nodes = (nodes (heap st))(next_id st := nopNode)\<rparr>,
              next_id := Suc (next_id st)\<rparr>))"
  using assms
  apply (simp add: move_def Let_def attribution_def movedOf_def split: prod.splits)
  apply (auto simp: loopEffects_def withPlaceholder_def makeNop_def subscript_def split: option.splits)
  done

lemma move_assert:
  "\<not> interestingToMove (heap st) (slots (heap st) currp) \<Longrightarrow> move A I currp loop st = Inl AssertionFailed"
  by (simp add: move_def)

lemma move_Inr_interesting:
  "move A I currp loop st = Inr r \<Longrightarrow> interestingToMove (heap st) (slots (heap st) currp)"
  by (cases "interestingToMove (heap st) (slots (heap st) currp)") (simp_all add: move_assert)

lemma nulled_refl: "nulled its its"
  by (simp add: nulled_def list_all2_refl)

lemma nulled_Cons: "nulled (a # its) (b # its') \<longleftrightarrow> (b = a \<or> b = None) \<and> nulled its its'"
  by (simp add: nulled_def)

lemma nulled_set: "nulled its its' \<Longrightarrow> Some p \<in> set its' \<Longrightarrow> Some p \<in> set its"
  unfolding nulled_def
  by (induction its its' rule: list_all2_induct) auto

lemma move_frame:
  "move A I currp loop st = Inr (ok, st') \<Longrightarrow>
     cfg st' = cfg st \<and> basicBlocks st' = basicBlocks st \<and> loops st' = loops st \<and> next_slot st' = next_slot st"
  by (frule move_Inr_interesting) (auto simp: move_cases Let_def split: if_splits)

lemma consItem_Inr:
  "consItem i r = Inr (its', x) \<longleftrightarrow> (\<exists>its. r = Inr (its, x) \<and> its' = i # its)"
  by (auto simp: consItem_def split: sum.splits)

lemma preserved_preserved0: "preserved A I R Q \<Longrightarrow> preserved0 A I R Q"
  by (simp add: preserved_def)

lemma preserved_refl: "preserved0 A I R Q \<Longrightarrow> R s s"
  by (simp add: preserved0_def)

lemma preserved_trans: "preserved0 A I R Q \<Longrightarrow> R a b \<Longrightarrow> R b c \<Longrightarrow> R a c"
  unfolding preserved0_def by blast

lemma preserved_move: "preserved0 A I R Q \<Longrightarrow> Q p \<Longrightarrow> move A I p l s = Inr (ok, s') \<Longrightarrow> R s s'"
  unfolding preserved0_def by blast

lemma preserved_loops: "preserved0 A I R Q \<Longrightarrow> R s (s\<lparr>loops := x\<rparr>)"
  by (simp add: preserved0_def)

lemma preserved_setItems: "preserved A I R Q \<Longrightarrow> nulled (items (cfg s b)) its \<Longrightarrow> R s (setItems b its s)"
  by (simp add: preserved_def)

lemma scanItems_rel:
  assumes pres: "preserved0 A I R Q"
  shows "\<forall>p. Some p \<in> set its \<longrightarrow> Q p \<Longrightarrow> scanItems A I its loop st = Inr (its', loop', stop, st') \<Longrightarrow> R st st'"
proof (induction "its" arbitrary: loop st its')
  case Nil
  then show ?case by (simp add: preserved_refl[OF pres])
next
  case (Cons i rest)
  show ?case
  proof (cases i)
    case None
    with Cons.prems obtain its2 where "scanItems A I rest loop st = Inr (its2, loop', stop, st')"
      by (auto simp: consItem_Inr)
    with Cons.IH Cons.prems(1) show ?thesis by auto
  next
    case (Some p)
    let ?cur = "slots (heap st) p"
    have Qp: "Q p" using Cons.prems(1) Some by simp
    have rest: "\<forall>p. Some p \<in> set rest \<longrightarrow> Q p" using Cons.prems(1) by simp
    show ?thesis
    proof (cases "is_Loop (kind (nodes (heap st) ?cur))")
      case True
      with Cons.prems(2) Some obtain its2 where
        "scanItems A I rest (Some ?cur) (st\<lparr>loops := loops st @ [p]\<rparr>) = Inr (its2, loop', stop, st')"
        by (auto simp: consItem_Inr Let_def)
      from Cons.IH[OF rest this] show ?thesis
        by (rule preserved_trans[OF pres preserved_loops[OF pres]])
    next
      case notLoop: False
      show ?thesis
      proof (cases loop)
        case None
        with notLoop Cons.prems(2) Some obtain its2 where
          "scanItems A I rest loop st = Inr (its2, loop', stop, st')"
          by (auto simp: consItem_Inr Let_def)
        from Cons.IH[OF rest this] show ?thesis .
      next
        case (Some l)
        show ?thesis
        proof (cases "branches (A (heap st) ?cur)")
          case True
          with notLoop Some \<open>i = Some p\<close> Cons.prems(2) have "st' = st" by (simp add: Let_def)
          then show ?thesis by (simp add: preserved_refl[OF pres])
        next
          case nb: False
          show ?thesis
          proof (cases "interestingToMove (heap st) ?cur")
            case False
            with nb notLoop Some \<open>i = Some p\<close> Cons.prems(2) obtain its2 where
              "scanItems A I rest loop st = Inr (its2, loop', stop, st')"
              by (auto simp: consItem_Inr Let_def)
            from Cons.IH[OF rest this] show ?thesis .
          next
            case True
            with nb notLoop Some \<open>i = Some p\<close> Cons.prems(2) obtain ok s1 its2 where
              m: "move A I p l st = Inr (ok, s1)" and
              r: "scanItems A I rest loop s1 = Inr (its2, loop', stop, st')"
              by (auto simp: consItem_Inr Let_def split: sum.splits)
            from preserved_move[OF pres Qp m] Cons.IH[OF rest r] show ?thesis
              by (rule preserved_trans[OF pres])
          qed
        qed
      qed
    qed
  qed
qed

lemma scanItems_cfg:
  assumes "scanItems A I its loop st = Inr (its', loop', stop, st')"
  shows "cfg st' = cfg st"
proof -
  have "preserved0 A I (\<lambda>s s'. cfg s' = cfg s) (\<lambda>_. True)"
    by (auto simp: preserved0_def dest: move_frame)
  from scanItems_rel[OF this _ assms] show ?thesis by simp
qed

lemma scanItems_nulled:
  "scanItems A I its loop st = Inr (its', loop', stop, st') \<Longrightarrow> nulled its its'"
proof (induction A I its loop st arbitrary: its' rule: scanItems.induct)
  case (1 A I loop st)
  then show ?case by (simp add: nulled_def)
next
  case (2 A I rest loop st)
  then show ?case by (auto simp: consItem_Inr nulled_Cons)
next
  case (3 A I currp rest loop st)
  show ?case
    using "3.prems" "3.IH"
    by (auto simp: consItem_Inr nulled_Cons nulled_refl Let_def split: if_splits option.splits sum.splits)
qed

lemma chain_rel:
  assumes pres: "preserved A I R Q"
  shows "\<forall>b p. Some p \<in> set (items (cfg st b)) \<longrightarrow> Q p \<Longrightarrow>
         chain n A I block loop st = Inr st' \<Longrightarrow> R st st'"
proof (induction n arbitrary: block loop st)
  case 0
  then show ?case by simp
next
  case (Suc n)
  from Suc.prems(2) obtain its loop1 stop st1 where
    sc: "scanItems A I (items (cfg st block)) loop st = Inr (its, loop1, stop, st1)"
    by (auto split: sum.splits)
  let ?st2 = "setItems block its st1"
  have c1: "cfg st1 = cfg st" using sc by (rule scanItems_cfg)
  have nl: "nulled (items (cfg st block)) its" using sc by (rule scanItems_nulled)
  have "\<forall>p. Some p \<in> set (items (cfg st block)) \<longrightarrow> Q p" using Suc.prems(1) by blast
  from scanItems_rel[OF preserved_preserved0[OF pres] this sc] have r1: "R st st1" .
  have r2: "R st1 ?st2" using preserved_setItems[OF pres] nl c1 by simp
  have r12: "R st ?st2" using preserved_trans[OF preserved_preserved0[OF pres] r1 r2] .
  show ?case
  proof (cases "stop \<or> length (out (cfg ?st2 block)) \<noteq> 1")
    case True
    with Suc.prems(2) sc have "st' = ?st2" by (simp add: Let_def)
    with r12 show ?thesis by simp
  next
    case False
    with Suc.prems(2) sc have
      ch: "chain n A I (hd (out (cfg ?st2 block))) loop1 ?st2 = Inr st'"
      by (simp add: Let_def)
    have "\<forall>b p. Some p \<in> set (items (cfg ?st2 b)) \<longrightarrow> Q p"
      using Suc.prems(1) nl c1 by (auto simp: setItems_def dest: nulled_set)
    from preserved_trans[OF preserved_preserved0[OF pres] r12 Suc.IH[OF this ch]] show ?thesis .
  qed
qed

lemma nulled_trans: "nulled a b \<Longrightarrow> nulled b c \<Longrightarrow> nulled a c"
  unfolding nulled_def
  by (erule (1) list_all2_trans[rotated 1]) auto

lemma shrunk_refl: "shrunk s s"
  by (simp add: shrunk_def nulled_refl)


lemma chain_shrunk:
  assumes "chain n A I block loop (st::'p licm) = Inr st'"
  shows "shrunk st st'"
proof -
  have "preserved A I (shrunk :: 'p licm \<Rightarrow> _) (\<lambda>_. True)"
    unfolding preserved_def preserved0_def
  proof (intro conjI allI impI)
    fix s :: "'p licm" and b its assume "nulled (items (cfg s b)) its"
    then show "shrunk s (setItems b its s)"
      by (simp add: shrunk_def setItems_def nulled_refl)
  qed (auto simp: shrunk_refl shrunk_def nulled_refl dest: move_frame intro: nulled_trans)
  from chain_rel[OF this _ assms] show ?thesis by simp
qed

lemma startChains_rel:
  assumes pres: "preserved A I R Q"
  shows "\<forall>b p. Some p \<in> set (items (cfg st b)) \<longrightarrow> Q p \<Longrightarrow>
         startChains n A I bs st = Inr st' \<Longrightarrow> R st st'"
proof (induction bs arbitrary: st)
  case Nil
  then show ?case by (simp add: preserved_refl[OF preserved_preserved0[OF pres]])
next
  case (Cons b bs)
  from Cons.prems(2) obtain st1 where
    ch: "chain n A I b None st = Inr st1" and rest: "startChains n A I bs st1 = Inr st'"
    by (auto split: sum.splits)
  from chain_rel[OF pres Cons.prems(1) ch] have r1: "R st st1" .
  have "\<forall>b p. Some p \<in> set (items (cfg st1 b)) \<longrightarrow> Q p"
    using chain_shrunk[OF ch] Cons.prems(1) by (auto simp: shrunk_def dest: nulled_set)
  from preserved_trans[OF preserved_preserved0[OF pres] r1 Cons.IH[OF this rest]] show ?case .
qed

lemma fst_subscript_update:
  "fst (subscript d (AList.update k v m) k') = (if k' = k then v else fst (subscript d m k'))"
  by (simp add: fst_subscript update_conv')

lemma not_interesting_nopNode: "nodes h e = nopNode \<Longrightarrow> \<not> interestingToMove h e"
  by (simp add: interestingToMove_def nopNode_def)

lemma grows_refl: "grows s s"
  by (simp add: grows_def)

lemma grows_interesting:
  assumes "grows a b" "interestingToMove (heap b) e"
  shows "interestingToMove (heap a) e"
proof -
  from assms(1) have "nodes (heap b) e = nodes (heap a) e \<or> nodes (heap b) e = nopNode"
    unfolding grows_def by blast
  with assms(2) show ?thesis
    by (auto simp: not_interesting_nopNode) (simp add: interestingToMove_def)
qed

lemma grows_trans:
  assumes ab: "grows a b" and bc: "grows b c"
  shows "grows a c"
  unfolding grows_def
proof (intro conjI allI)
  show "next_id a \<le> next_id c" using ab bc by (simp add: grows_def)
next
  fix k
  have 1: "nodes (heap b) k = nodes (heap a) k \<or>
          (next_id a \<le> k \<and> k < next_id b \<and> nodes (heap b) k = nopNode)"
    using ab unfolding grows_def by blast
  have 2: "nodes (heap c) k = nodes (heap b) k \<or>
          (next_id b \<le> k \<and> k < next_id c \<and> nodes (heap c) k = nopNode)"
    using bc unfolding grows_def by blast
  have 3: "next_id a \<le> next_id b" "next_id b \<le> next_id c"
    using ab bc by (simp_all add: grows_def)
  from 1 2 3 show "nodes (heap c) k = nodes (heap a) k \<or>
          (next_id a \<le> k \<and> k < next_id c \<and> nodes (heap c) k = nopNode)"
    by auto
next
  fix e show "attribution c e = attribution a e" using ab bc by (simp add: grows_def)
next
  fix l
  from ab obtain ys where ys: "movedOf b l = movedOf a l @ ys"
    "\<forall>e \<in> set ys. interestingToMove (heap a) e \<and> attribution a e = Some l"
    unfolding grows_def by blast
  from bc obtain zs where zs: "movedOf c l = movedOf b l @ zs"
    "\<forall>e \<in> set zs. interestingToMove (heap b) e \<and> attribution b e = Some l"
    unfolding grows_def by blast
  have att: "\<And>e. attribution b e = attribution a e" using ab by (simp add: grows_def)
  have "movedOf c l = movedOf a l @ (ys @ zs)" using ys zs by simp
  moreover have "\<forall>e \<in> set (ys @ zs). interestingToMove (heap a) e \<and> attribution a e = Some l"
    using ys(2) zs(2) att grows_interesting[OF ab] by auto
  ultimately show "\<exists>ys. movedOf c l = movedOf a l @ ys \<and>
      (\<forall>e \<in> set ys. interestingToMove (heap a) e \<and> attribution a e = Some l)"
    by blast
qed

lemma move_grows:
  assumes "move A I p l s = Inr (ok, s')"
  shows "grows s s'"
proof -
  have int: "interestingToMove (heap s) (slots (heap s) p)"
    using assms by (rule move_Inr_interesting)
  show ?thesis
  proof (cases ok)
    case False
    with assms int have "s' = s\<lparr>expressionLoops := snd (subscript None (expressionLoops s) (slots (heap s) p))\<rparr>"
      by (auto simp: move_cases Let_def split: if_splits)
    then show ?thesis
      by (simp add: grows_def attribution_def movedOf_def subscript_again)
  next
    case True
    with assms int have
      att: "attribution s (slots (heap s) p) = Some l" and
      s': "s' = s\<lparr>expressionLoops := snd (subscript None (expressionLoops s) (slots (heap s) p)),
              movedCode := AList.update l (movedOf s l @ [slots (heap s) p]) (movedCode s),
              heap := \<lparr>slots = (slots (heap s))(p := next_id s), nodes = (nodes (heap s))(next_id s := nopNode)\<rparr>,
              next_id := Suc (next_id s)\<rparr>"
      by (auto simp: move_cases Let_def split: if_splits)
    show ?thesis
      unfolding grows_def
    proof (intro conjI allI)
      fix l'
      show "\<exists>ys. movedOf s' l' = movedOf s l' @ ys \<and>
          (\<forall>e \<in> set ys. interestingToMove (heap s) e \<and> attribution s e = Some l')"
      proof (cases "l' = l")
        case True
        then have "movedOf s' l' = movedOf s l' @ [slots (heap s) p]"
          by (simp add: s' movedOf_def fst_subscript_update)
        with int att True show ?thesis by auto
      next
        case False
        then have "movedOf s' l' = movedOf s l' @ []"
          by (simp add: s' movedOf_def fst_subscript_update)
        then show ?thesis by (intro exI[of _ "[]"]) simp
      qed
    qed (auto simp: s' attribution_def subscript_again)
  qed
qed

lemma preserved_grows: "preserved A I grows (\<lambda>_. True)"
  unfolding preserved_def preserved0_def
  by (auto simp: grows_refl move_grows intro: grows_trans)
     (simp_all add: grows_def attribution_def movedOf_def setItems_def)

section \<open>Evaluating the concrete function\<close>

lemmas ex_defs = exState_def exHeap_def exNodes_def exBlocks_def interestingToMove_def subscript_def
    loopEffects_def withPlaceholder_def conflicts_def combine_def noEffects_def makeNop_def nopNode_def
    attribution_def movedOf_def

lemma exState_sel [simp]:
  "heap exState = exHeap" "next_id exState = 14" "next_slot exState = 114"
  "basicBlocks exState = [0, 1, 2, 3]" "movedCode exState = []" "loops exState = []"
  "expressionLoops exState = map (\<lambda>e. (e, Some 1)) [8, 9, 7, 4, 11, 12, 10, 5, 13, 6, 3]"
  "cfg exState b = (if b < 4 then exBlocks ! b else \<lparr>items = [], out = []\<rparr>)"
  by (simp_all add: exState_def)

lemma exHeap_sel [simp]:
  "slots exHeap p = p - 100" "nodes exHeap e = (if e < 14 then exNodes ! e else nopNode)"
  by (simp_all add: exHeap_def)

lemma chain_numeral:
  "chain (numeral k) A I block loop st =
     (case scanItems A I (items (cfg st block)) loop st of
        Inl e \<Rightarrow> Inl e
      | Inr (its, loop', stop, st') \<Rightarrow>
          let st'' = setItems block its st' in
            if stop \<or> length (out (cfg st'' block)) \<noteq> 1 then Inr st''
            else chain (pred_numeral k) A I (hd (out (cfg st'' block))) loop' st'')"
  by (simp add: numeral_eq_Suc)

lemma walk_numeral:
  "walk (numeral k) currp st =
     (let cur = slots (heap st) currp in
      case walkList (pred_numeral k) (children (nodes (heap st) cur)) st of
        Inl e \<Rightarrow> Inl e
      | Inr st' \<Rightarrow> Inr (if is_Loop (kind (nodes (heap st) cur)) then visitLoop currp st' else st'))"
  by (simp add: numeral_eq_Suc)

lemma effectsOf_numeral:
  "effectsOf (numeral k) h e =
     foldl combine (ownEffects (kind (nodes h e)))
       (map (\<lambda>c. effectsOf (pred_numeral k) h (slots h c)) (children (nodes h e)))"
  by (simp add: numeral_eq_Suc)

lemmas fuel = chain_numeral walk_numeral effectsOf_numeral

lemmas evl = fuel move_def Let_def interestingToMove_def exNodes_def subscript_def
     loopEffects_def withPlaceholder_def conflicts_def noEffects_def combine_def makeNop_def nopNode_def
     consItem_def exBlocks_def setItems_def attribution_def movedOf_def

lemma ex_run:
  "\<exists>st'. findAndMove 10 (effectsOf 10) conflicts 100 exState = Inr st' \<and>
     movedCode st' = [(1, [4])] \<and>
     map (slots (heap st')) [100..<116] = [0, 15, 2, 3, 14, 5, 6, 7, 8, 9, 10, 11, 12, 13, 4, 1] \<and>
     map (nodes (heap st')) [14..<16] =
       [nopNode, \<lparr>kind = Block, type = none, children = [114, 115]\<rparr>] \<and>
     map (\<lambda>b. items (cfg st' b)) [0..<4] =
       [[Some 101], map Some [108, 109, 107] @ [None] @ map Some [111, 112, 110, 105, 113, 106],
        [Some 103], []]"
  by (simp add: evl findAndMove_def visitLoop_def makeBlock_def push_back_def finalize_def
      storeList_def upt_rec)

lemma ex_move: "move (effectsOf 10) conflicts 104 1 exState = Inr (True, exMoved)"
  by (simp add: evl exMoved_def exState_def exHeap_def)

lemma ex_scan:
  "\<exists>st'. scanItems (effectsOf 10) conflicts (items (cfg exState 1)) (Some 1) exState =
     Inr (map Some [108, 109, 107] @ [None] @ map Some [111, 112, 110, 105, 113, 106], Some 1, True, st') \<and>
     movedCode st' = [(1, [4])]"
  by (simp add: evl)

lemma ex_chain:
  "\<exists>st'. chain 10 (effectsOf 10) conflicts 0 None exState = Inr st' \<and> movedCode st' = [(1, [4])]"
  by (simp add: evl)

lemma exNested_sel [simp]:
  "slots (heap exNested) p = p - 100"
  "nodes (heap exNested) e = (if e < 7 then exNestedNodes ! e else nopNode)"
  "next_id exNested = 7" "next_slot exNested = 107"
  "basicBlocks exNested = [0, 1, 2, 3, 4, 5]" "movedCode exNested = []" "loops exNested = []"
  "expressionLoops exNested = map (\<lambda>e. (e, Some 1)) [5, 3, 6, 4, 2]"
  "cfg exNested b = (if b < 6 then exNestedBlocks ! b else \<lparr>items = [], out = []\<rparr>)"
  by (simp_all add: exNested_def)

lemma ex_scan_pre:
  "scanItems (effectsOf 10) conflicts (map Some [108, 109, 107, 104, 111, 112, 110, 105, 113]) (Some 1) exState =
     Inr (map Some [108, 109, 107] @ [None] @ map Some [111, 112, 110, 105, 113], Some 1, False, exMoved)"
  by (simp add: evl exMoved_def exState_def exHeap_def)

lemma ex_scan_block1:
  "scanItems (effectsOf 10) conflicts (items (cfg exState 1)) (Some 1) exState =
     Inr (map Some [108, 109, 107] @ [None] @ map Some [111, 112, 110, 105, 113, 106], Some 1, True, exMoved)"
  by (simp add: evl exMoved_def exState_def exHeap_def)

lemma ex_scan_three:
  "scanItems (effectsOf 10) conflicts (map Some [108, 109, 107]) (Some 1) exState =
     Inr (map Some [108, 109, 107], Some 1, False, exState)"
  by (simp add: evl)

lemma exMoved_sel [simp]:
  "heap exMoved = \<lparr>slots = (slots exHeap)(104 := 14), nodes = (nodes exHeap)(14 := nopNode)\<rparr>"
  "next_id exMoved = 15" "next_slot exMoved = 114" "movedCode exMoved = [(1, [4])]"
  "cfg exMoved = cfg exState" "expressionLoops exMoved = expressionLoops exState"
  by (simp_all add: exMoved_def)

lemma chainTrace_numeral:
  "chainTrace (numeral k) A I block loop st =
     (case scanItems A I (items (cfg st block)) loop st of
        Inl e \<Rightarrow> Inl e
      | Inr (its, loop', stop, st') \<Rightarrow>
          let st'' = setItems block its st' in
            if stop \<or> length (out (cfg st'' block)) \<noteq> 1 then Inr ([block], st'')
            else (case chainTrace (pred_numeral k) A I (hd (out (cfg st'' block))) loop' st'' of
                    Inl e \<Rightarrow> Inl e
                  | Inr (bs, s) \<Rightarrow> Inr (block # bs, s)))"
  by (simp add: numeral_eq_Suc)

lemma ex_trace:
  "\<exists>st'. startChainsTrace 10 (effectsOf 10) conflicts (basicBlocks exState) exState =
          Inr ([[0, 1], [1], [2, 3], [3]], st')"
  by (simp add: evl chainTrace_numeral)

lemma exec_numeral:
  "exec (numeral k) h e s =
     (case execList (pred_numeral k) h (children (nodes h e)) [] s of
        None \<Rightarrow> None
      | Some (vs, Jump t, s') \<Rightarrow>
          (case kind (nodes h e) of
             Loop \<Rightarrow> if t = e then exec (pred_numeral k) h e s' else Some (None, Jump t, s')
           | Block \<Rightarrow> if t = e then Some (None, Next, s') else Some (None, Jump t, s')
           | _ \<Rightarrow> Some (None, Jump t, s'))
      | Some (vs, Next, s') \<Rightarrow>
          (case (kind (nodes h e), vs) of
             (Nop, []) \<Rightarrow> Some (None, Next, s')
           | (Loop, [v]) \<Rightarrow> Some (v, Next, s')
           | (Block, _) \<Rightarrow> Some (if vs = [] then None else last vs, Next, s')
           | (Other (GetLocal i), []) \<Rightarrow> Some (Some (s' i), Next, s')
           | (Other (Const c), []) \<Rightarrow> Some (Some c, Next, s')
           | (Other (SetLocal i), [Some v]) \<Rightarrow> Some (None, Next, s'(i := v))
           | (Other Add, [Some a, Some b]) \<Rightarrow> Some (Some (a + b), Next, s')
           | (Other Sub, [Some a, Some b]) \<Rightarrow> Some (Some (a - b), Next, s')
           | (Other (BrIf t), [Some c]) \<Rightarrow> Some (None, if c \<noteq> 0 then Jump t else Next, s')
           | _ \<Rightarrow> None))"
  by (simp add: numeral_eq_Suc)

lemma ex_runs_original: "run 30 (heap exState) 100 [5, 3] = Some (Some 8, [8, 0])"
  by (simp add: run_def exec_numeral exNodes_def upt_rec)

lemma subtree_numeral:
  "subtree (numeral k) h p =
     (case subtrees (pred_numeral k) h (children (nodes h (slots h p))) of
        None \<Rightarrow> None
      | Some xs \<Rightarrow> Some (p # xs))"
  by (simp add: numeral_eq_Suc)

lemma ex_tree:
  "subtree 10 (heap exMoved) 100 = Some [100, 101, 103, 104, 105, 110, 111, 112, 106, 113, 102]"
  by (simp add: subtree_numeral exNodes_def nopNode_def)

lemma ex_placed: "placed exMoved [100, 101, 103, 104, 105, 110, 111, 112, 106, 113, 102]"
  by (simp add: placed_def)

lemma ex_facts:
  "is_Loop (kind (nodes (heap exMoved) (slots (heap exMoved) 101)))"
  "movedOf exMoved (slots (heap exMoved) 101) = [4]" "movedOf exMoved 3 = []"
  "movedOf exMoved (slots (heap exMoved) 103) = []"
  "type (nodes (heap exMoved) (slots (heap exMoved) 101)) = none"
  "slots (heap exMoved) 101 = 1" "slots (heap exMoved) 103 = 3"
  "\<not> is_Loop (kind (nodes (heap exMoved) (slots (heap exMoved) 103)))"
  "101 < next_slot exMoved" "slots (heap exMoved) 101 < next_id exMoved"
  "1 < next_id exMoved"
  by (simp_all add: movedOf_def subscript_def exNodes_def)

lemma ex_facts2:
  "movedOf exMoved 1 = [4]" "type (nodes (heap exMoved) 1) = none"
  "is_Loop (kind (nodes (heap exMoved) 1))"
  by (simp_all add: movedOf_def subscript_def exNodes_def)

lemma move_Inr: "interestingToMove (heap st) (slots (heap st) currp) \<Longrightarrow> \<exists>ok st'. move A I currp loop st = Inr (ok, st')"
  by (auto simp: move_cases Let_def)

lemma consItem_total: "\<exists>y. r = Inr y \<Longrightarrow> \<exists>y. consItem i r = Inr y"
  by (auto simp: consItem_def)

lemma scanItems_Inr: "\<exists>y. scanItems A I its loop st = Inr y"
proof (induction "its" arbitrary: loop st)
  case Nil
  show ?case by (simp del: split_paired_Ex)
next
  case (Cons i rest)
  show ?case
  proof (cases i)
    case None
    then show ?thesis by (simp add: consItem_total Cons.IH del: split_paired_Ex)
  next
    case (Some currp)
    show ?thesis
    proof (cases "interestingToMove (heap st) (slots (heap st) currp)")
      case False
      then show ?thesis
        by (simp add: Some Let_def consItem_total Cons.IH del: split_paired_Ex split: option.splits)
    next
      case True
      have "\<exists>y. (case move A I currp l st of Inl e \<Rightarrow> Inl e
                 | Inr (moved, st') \<Rightarrow>
                    consItem (if moved then None else Some currp) (scanItems A I rest loop st')) = Inr y" for l
      proof -
        from move_Inr[OF True] obtain ok st1 where m: "move A I currp l st = Inr (ok, st1)" by blast
        show ?thesis by (simp add: m consItem_total Cons.IH del: split_paired_Ex)
      qed
      then show ?thesis
        by (simp add: Some Let_def consItem_total Cons.IH del: split_paired_Ex split: option.splits)
    qed
  qed
qed

lemma chain_no_assert: "chain n A I block loop st \<noteq> Inl AssertionFailed"
proof (induction n arbitrary: block loop st)
  case 0
  then show ?case by simp
next
  case (Suc n)
  obtain its l stop st1 where "scanItems A I (items (cfg st block)) loop st = Inr (its, l, stop, st1)"
    using scanItems_Inr by (metis prod_cases4)
  with Suc show ?case by (simp add: Let_def)
qed

lemma startChains_no_assert: "startChains n A I bs st \<noteq> Inl AssertionFailed"
proof (induction bs arbitrary: st)
  case Nil
  then show ?case by simp
next
  case (Cons b bs)
  then show ?case using chain_no_assert[of n A I b None st]
    by (auto split: sum.splits)
qed

lemma startChains_grows: "startChains n A I bs st = Inr st' \<Longrightarrow> grows st st'"
  using startChains_rel[OF preserved_grows] by blast

lemma movedOf_subscript [simp]: "movedOf (st\<lparr>movedCode := snd (subscript [] (movedCode st) k)\<rparr>) l = movedOf st l"
  by (simp add: movedOf_def subscript_again)

lemma visitLoop_movedOf: "movedOf (visitLoop p st) l = movedOf st l"
  by (simp add: visitLoop_def Let_def makeBlock_def push_back_def finalize_def movedOf_def subscript_again split_beta)

lemma walk_movedOf:
  "walk n p st = Inr st' \<Longrightarrow> movedOf st' l = movedOf st l"
  "walkList n ps st = Inr st' \<Longrightarrow> movedOf st' l = movedOf st l"
proof (induction n p st and n ps st arbitrary: st' and st' rule: walk_walkList.induct)
  case (1 currp st)
  then show ?case by simp
next
  case (2 n currp st)
  then show ?case by (auto simp: Let_def visitLoop_movedOf split: sum.splits if_splits)
next
  case (3 n st)
  then show ?case by simp
next
  case (4 n c cs st)
  then show ?case by (auto split: sum.splits)
qed

lemma walk_no_assert:
  "walk n p st \<noteq> Inl AssertionFailed"
  "walkList n ps st \<noteq> Inl AssertionFailed"
  by (induction n p st and n ps st rule: walk_walkList.induct)
     (auto simp: Let_def split: sum.splits)

lemma movedOf_loops [simp]: "movedOf (st\<lparr>loops := x\<rparr>) l = movedOf st l"
  by (simp add: movedOf_def)

lemma attribution_loops [simp]: "attribution (st\<lparr>loops := x\<rparr>) e = attribution st e"
  by (simp add: attribution_def)

lemma findAndMove_no_assert: "findAndMove n A I body st \<noteq> Inl AssertionFailed"
  using startChains_no_assert[of n A I "basicBlocks st" "st\<lparr>loops := []\<rparr>"] walk_no_assert(1)[of n body]
  by (auto simp: findAndMove_def split: sum.splits)

lemma findAndMove_moved:
  assumes "findAndMove n A I body st = Inr st'"
  shows "\<exists>ys. movedOf st' l = movedOf st l @ ys \<and>
          (\<forall>e \<in> set ys. interestingToMove (heap st) e \<and> attribution st e = Some l)"
proof -
  from assms obtain st1 where sc: "startChains n A I (basicBlocks st) (st\<lparr>loops := []\<rparr>) = Inr st1"
    and m: "movedOf st' l = movedOf st1 l"
    by (auto simp: findAndMove_def walk_movedOf split: sum.splits if_splits)
  from startChains_grows[OF sc] m show ?thesis
    by (simp add: grows_def)
qed

lemma attribution_Some: "attribution st e = Some l \<longleftrightarrow> map_of (expressionLoops st) e = Some (Some l)"
  by (auto simp: attribution_def fst_subscript split: option.splits)

lemma nopKept_refl: "nopKept s s"
  by (simp add: nopKept_def)

lemma nopKept_trans: "nopKept a b \<Longrightarrow> nopKept b c \<Longrightarrow> nopKept a c"
  unfolding nopKept_def
  apply (intro conjI allI impI)
     apply linarith
    apply linarith
   apply (metis less_le_trans)
  apply (metis less_le_trans)
  done

lemma move_nopKept:
  assumes "move A I p l s = Inr (ok, s')"
  shows "nopKept s s'"
proof -
  have int: "interestingToMove (heap s) (slots (heap s) p)"
    using assms by (rule move_Inr_interesting)
  with assms show ?thesis
    by (auto simp: move_cases Let_def nopKept_def interestingToMove_def split: if_splits)
qed

lemma preserved_nopKept: "preserved A I nopKept (\<lambda>_. True)"
  unfolding preserved_def preserved0_def
  by (auto simp: nopKept_refl move_nopKept intro: nopKept_trans)
     (simp_all add: nopKept_def setItems_def)

lemma storeList_nth: "i < length xs \<Longrightarrow> storeList base xs s (base + i) = xs ! i"
  by (simp add: storeList_def)

lemma storeList_other: "p < base \<Longrightarrow> storeList base xs s p = s p"
  by (simp add: storeList_def)

lemma map_storeList: "map (storeList base xs s) [base ..< base + length xs] = xs"
  by (rule nth_equalityI) (simp_all add: storeList_def)

lemma visitLoop_empty:
  "movedOf st (slots (heap st) currp) = [] \<Longrightarrow>
   visitLoop currp st = st\<lparr>movedCode := snd (subscript [] (movedCode st) (slots (heap st) currp))\<rparr>"
  by (simp add: visitLoop_def movedOf_def Let_def split_beta)

lemma visitLoop_wraps:
  assumes ne: "movedOf st (slots (heap st) currp) \<noteq> []"
    and live: "currp < next_slot st" "slots (heap st) currp < next_id st"
  shows "slots (heap (visitLoop currp st)) currp = next_id st"
    "kind (nodes (heap (visitLoop currp st)) (next_id st)) = Block"
    "type (nodes (heap (visitLoop currp st)) (next_id st)) = type (nodes (heap st) (slots (heap st) currp))"
    "map (slots (heap (visitLoop currp st))) (children (nodes (heap (visitLoop currp st)) (next_id st))) =
       movedOf st (slots (heap st) currp) @ [slots (heap st) currp]"
    "nodes (heap (visitLoop currp st)) (slots (heap st) currp) = nodes (heap st) (slots (heap st) currp)"
  using assms
  by (simp_all add: visitLoop_def movedOf_def Let_def split_beta makeBlock_def push_back_def finalize_def
      map_storeList storeList_other)

lemma visitLoop_frame:
  "next_id st \<le> next_id (visitLoop currp st)"
  "next_slot st \<le> next_slot (visitLoop currp st)"
  "k < next_id st \<Longrightarrow> nodes (heap (visitLoop currp st)) k = nodes (heap st) k"
  "p < next_slot st \<Longrightarrow> p \<noteq> currp \<Longrightarrow> slots (heap (visitLoop currp st)) p = slots (heap st) p"
  by (simp_all add: visitLoop_def Let_def split_beta makeBlock_def push_back_def finalize_def storeList_other)

lemma Loop_not_Nop: "is_Loop k \<Longrightarrow> \<not> is_Nop k"
  by (cases k) simp_all

lemma nopKeptD:
  assumes "nopKept s s'"
  shows "next_id s \<le> next_id s'" "next_slot s \<le> next_slot s'"
    "\<And>k. k < next_id s \<Longrightarrow> nodes (heap s') k = nodes (heap s) k"
    "\<And>p. p < next_slot s \<Longrightarrow> slots (heap s) p < next_id s \<Longrightarrow>
        is_Nop (kind (nodes (heap s) (slots (heap s) p))) \<Longrightarrow>
        slots (heap s') p = slots (heap s) p"
  using assms unfolding nopKept_def by blast+

lemma visitLoop_nopKept:
  assumes l: "is_Loop (kind (nodes (heap st) (slots (heap st) currp)))"
    and k: "nopKept st st1"
  shows "nopKept st (visitLoop currp st1)"
  unfolding nopKept_def
proof (intro conjI allI impI)
  show "next_id st \<le> next_id (visitLoop currp st1)"
    using nopKeptD(1)[OF k] visitLoop_frame(1)[of st1 currp] by (rule le_trans)
  show "next_slot st \<le> next_slot (visitLoop currp st1)"
    using nopKeptD(2)[OF k] visitLoop_frame(2)[of st1 currp] by (rule le_trans)
next
  fix j assume j: "j < next_id st"
  then have "j < next_id st1" using nopKeptD(1)[OF k] by simp
  from visitLoop_frame(3)[OF this] nopKeptD(3)[OF k j]
  show "nodes (heap (visitLoop currp st1)) j = nodes (heap st) j"
    by (rule trans)
next
  fix p assume p: "p < next_slot st" "slots (heap st) p < next_id st"
    "is_Nop (kind (nodes (heap st) (slots (heap st) p)))"
  have ne: "p \<noteq> currp" using Loop_not_Nop[OF l] p(3) by blast
  have "p < next_slot st1" using nopKeptD(2)[OF k] p(1) by simp
  from visitLoop_frame(4)[OF this ne] nopKeptD(4)[OF k p]
  show "slots (heap (visitLoop currp st1)) p = slots (heap st) p"
    by (rule trans)
qed

lemma walk_nopKept:
  "walk n p st = Inr st' \<Longrightarrow> nopKept st st'"
  "walkList n ps st = Inr st' \<Longrightarrow> nopKept st st'"
proof (induction n p st and n ps st arbitrary: st' and st' rule: walk_walkList.induct)
  case (1 currp st)
  then show ?case by simp
next
  case (2 n currp st)
  from "2.prems" obtain st1 where
    w: "walkList n (children (nodes (heap st) (slots (heap st) currp))) st = Inr st1"
    and r: "st' = (if is_Loop (kind (nodes (heap st) (slots (heap st) currp))) then visitLoop currp st1 else st1)"
    by (auto simp: Let_def split: sum.splits)
  from "2.IH"[OF refl w] have "nopKept st st1" .
  with r show ?case by (auto intro: visitLoop_nopKept)
next
  case (3 n st)
  then show ?case by (simp add: nopKept_refl)
next
  case (4 n c cs st)
  then show ?case by (auto split: sum.splits intro: nopKept_trans)
qed

lemma findAndMove_nopKept:
  assumes "findAndMove n A I body st = Inr st'"
  shows "nopKept st st'"
proof -
  from assms obtain st1 where sc: "startChains n A I (basicBlocks st) (st\<lparr>loops := []\<rparr>) = Inr st1"
    and w: "st' = st1 \<or> walk n body st1 = Inr st'"
    by (auto simp: findAndMove_def split: sum.splits if_splits)
  have "nopKept (st\<lparr>loops := []\<rparr>) st1"
    using startChains_rel[OF preserved_nopKept _ sc] by simp
  then have 1: "nopKept st st1" by (simp add: nopKept_def)
  from w show ?thesis
  proof
    assume "st' = st1" with 1 show ?thesis by simp
  next
    assume "walk n body st1 = Inr st'"
    from nopKept_trans[OF 1 walk_nopKept(1)[OF this]] show ?thesis .
  qed
qed

lemma subseq_map_agree:
  "subseq ys (map f xs) \<Longrightarrow> (\<And>x. x \<in> set xs \<Longrightarrow> f x \<in> set ys \<Longrightarrow> g x = f x) \<Longrightarrow> subseq ys (map g xs)"
proof (induction xs arbitrary: ys)
  case Nil
  then show ?case by simp
next
  case (Cons x xs)
  show ?case
  proof (cases ys)
    case Nil
    then show ?thesis by simp
  next
    case (Cons y ys')
    show ?thesis
    proof (cases "y = f x")
      case True
      with Cons.prems(1) \<open>ys = y # ys'\<close> have s: "subseq ys' (map f xs)" by simp
      have "subseq ys' (map g xs)"
        by (rule Cons.IH[OF s]) (use Cons.prems(2) \<open>ys = y # ys'\<close> in auto)
      moreover have "g x = f x" using Cons.prems(2)[of x] True \<open>ys = y # ys'\<close> by simp
      ultimately show ?thesis using True \<open>ys = y # ys'\<close> by simp
    next
      case False
      with Cons.prems(1) \<open>ys = y # ys'\<close> have s: "subseq ys (map f xs)" by simp
      have "subseq ys (map g xs)"
        by (rule Cons.IH[OF s]) (use Cons.prems(2) in auto)
      then show ?thesis by (simp add: list_emb_Cons)
    qed
  qed
qed

lemma somes_simps [simp]:
  "somes [] = []" "somes (None # xs) = somes xs" "somes (Some x # xs) = x # somes xs"
  by (simp_all add: somes_def)

lemma scanItems_grows:
  assumes "scanItems A I its loop st = Inr (its', loop', stop, st')"
  shows "grows st st'"
  using scanItems_rel[OF preserved_preserved0[OF preserved_grows] _ assms] by simp

lemma grows_loops: "grows (st\<lparr>loops := x\<rparr>) st' \<Longrightarrow> grows st st'"
  by (simp add: grows_def movedOf_def attribution_def)

lemma move_True:
  assumes "move A I p l s = Inr (True, s')"
  shows "movedOf s' l' = (if l' = l then movedOf s l @ [slots (heap s) p] else movedOf s l')"
    "slots (heap s') = (slots (heap s))(p := next_id s)"
    "nodes (heap s') = (nodes (heap s))(next_id s := nopNode)"
    "next_id s' = Suc (next_id s)"
    "attribution s (slots (heap s) p) = Some l"
proof -
  have int: "interestingToMove (heap s) (slots (heap s) p)"
    using assms by (rule move_Inr_interesting)
  from assms int have
      att: "attribution s (slots (heap s) p) = Some l" and
      s': "s' = s\<lparr>expressionLoops := snd (subscript None (expressionLoops s) (slots (heap s) p)),
              movedCode := AList.update l (movedOf s l @ [slots (heap s) p]) (movedCode s),
              heap := \<lparr>slots = (slots (heap s))(p := next_id s), nodes = (nodes (heap s))(next_id s := nopNode)\<rparr>,
              next_id := Suc (next_id s)\<rparr>"
    by (auto simp: move_cases Let_def split: if_splits)
  show "attribution s (slots (heap s) p) = Some l" by (rule att)
  show "movedOf s' l' = (if l' = l then movedOf s l @ [slots (heap s) p] else movedOf s l')"
    by (simp add: s' movedOf_def fst_subscript_update)
  show "slots (heap s') = (slots (heap s))(p := next_id s)"
    "nodes (heap s') = (nodes (heap s))(next_id s := nopNode)"
    "next_id s' = Suc (next_id s)"
    by (simp_all add: s')
qed

lemma move_False:
  assumes "move A I p l s = Inr (False, s')"
  shows "movedOf s' l' = movedOf s l'" "heap s' = heap s" "next_id s' = next_id s"
proof -
  have int: "interestingToMove (heap s) (slots (heap s) p)"
    using assms by (rule move_Inr_interesting)
  with assms have "s' = s\<lparr>expressionLoops := snd (subscript None (expressionLoops s) (slots (heap s) p))\<rparr>"
    by (auto simp: move_cases Let_def split: if_splits)
  then show "movedOf s' l' = movedOf s l'" "heap s' = heap s" "next_id s' = next_id s"
    by (simp_all add: movedOf_def)
qed

lemma scanItems_order:
  "scanItems A I its loop st = Inr (its', loop', stop, st') \<Longrightarrow>
   \<exists>ys. movedOf st' l = movedOf st l @ ys \<and> subseq ys (map (slots (heap st)) (somes its))"
proof (induction "its" arbitrary: loop st its')
  case Nil
  then show ?case by simp
next
  case (Cons i rest)
  show ?case
  proof (cases i)
    case None
    with Cons.prems obtain its2 where "scanItems A I rest loop st = Inr (its2, loop', stop, st')"
      by (auto simp: consItem_Inr)
    from Cons.IH[OF this] None show ?thesis by simp
  next
    case (Some p)
    let ?cur = "slots (heap st) p"
    have skip: ?thesis if "scanItems A I rest l0 (st\<lparr>loops := x\<rparr>) = Inr (its2, loop', stop, st')" for l0 x its2
    proof -
      from Cons.IH[OF that] obtain ys where "movedOf st' l = movedOf st l @ ys"
        "subseq ys (map (slots (heap st)) (somes rest))" by auto
      then show ?thesis using Some by (auto intro: list_emb_Cons)
    qed
    have skip': ?thesis if "scanItems A I rest l0 st = Inr (its2, loop', stop, st')" for l0 its2
      using skip[of l0 "loops st" its2] that by simp
    show ?thesis
    proof (cases "is_Loop (kind (nodes (heap st) ?cur))")
      case True
      with Cons.prems Some obtain its2 where
        "scanItems A I rest (Some ?cur) (st\<lparr>loops := loops st @ [p]\<rparr>) = Inr (its2, loop', stop, st')"
        by (auto simp: consItem_Inr Let_def)
      then show ?thesis by (rule skip)
    next
      case notLoop: False
      show ?thesis
      proof (cases loop)
        case None
        with notLoop Cons.prems Some obtain its2 where
          "scanItems A I rest loop st = Inr (its2, loop', stop, st')"
          by (auto simp: consItem_Inr Let_def)
        then show ?thesis by (rule skip')
      next
        case (Some l0)
        show ?thesis
        proof (cases "branches (A (heap st) ?cur)")
          case True
          with notLoop Some \<open>i = Some p\<close> Cons.prems have "st' = st" by (simp add: Let_def)
          then show ?thesis by simp
        next
          case nb: False
          show ?thesis
          proof (cases "interestingToMove (heap st) ?cur")
            case False
            with nb notLoop Some \<open>i = Some p\<close> Cons.prems obtain its2 where
              "scanItems A I rest loop st = Inr (its2, loop', stop, st')"
              by (auto simp: consItem_Inr Let_def)
            then show ?thesis by (rule skip')
          next
            case True
            with nb notLoop Some \<open>i = Some p\<close> Cons.prems obtain ok s1 its2 where
              m: "move A I p l0 st = Inr (ok, s1)" and
              r: "scanItems A I rest loop s1 = Inr (its2, loop', stop, st')"
              by (auto simp: consItem_Inr Let_def split: sum.splits)
            from Cons.IH[OF r] obtain ys1 where ys1: "movedOf st' l = movedOf s1 l @ ys1"
              "subseq ys1 (map (slots (heap s1)) (somes rest))" by auto
            show ?thesis
            proof (cases ok)
              case False
              with m have "movedOf s1 l = movedOf st l" "heap s1 = heap st"
                by (auto dest: move_False)
              with ys1 \<open>i = Some p\<close> show ?thesis by (auto intro: list_emb_Cons)
            next
              case True
              from m True have m': "move A I p l0 st = Inr (True, s1)" by simp
              note mt = move_True[OF m']
              from scanItems_grows[OF r] obtain zs where
                zs: "movedOf st' l = movedOf s1 l @ zs" "\<forall>e \<in> set zs. interestingToMove (heap s1) e"
                unfolding grows_def by blast
              with ys1(1) have "zs = ys1" by simp
              with zs(2) have int: "\<forall>e \<in> set ys1. interestingToMove (heap s1) e" by simp
              have "\<not> interestingToMove (heap s1) (next_id st)"
                by (rule not_interesting_nopNode) (simp add: mt(3))
              with int have fresh: "next_id st \<notin> set ys1" by blast
              have sub: "subseq ys1 (map (slots (heap st)) (somes rest))"
                by (rule subseq_map_agree[OF ys1(2)]) (use fresh in \<open>auto simp: mt(2)\<close>)
              show ?thesis
              proof (cases "l = l0")
                case True
                then have "movedOf st' l = movedOf st l @ (?cur # ys1)"
                  using ys1(1) mt(1)[of l] by simp
                moreover have "subseq (?cur # ys1) (map (slots (heap st)) (somes (i # rest)))"
                  using sub \<open>i = Some p\<close> by simp
                ultimately show ?thesis by blast
              next
                case False
                then have "movedOf st' l = movedOf st l @ ys1"
                  using ys1(1) mt(1)[of l] by simp
                moreover have "subseq ys1 (map (slots (heap st)) (somes (i # rest)))"
                  using sub \<open>i = Some p\<close> by (simp add: list_emb_Cons)
                ultimately show ?thesis by blast
              qed
            qed
          qed
        qed
      qed
    qed
  qed
qed

lemma scanItems_nopKept:
  assumes "scanItems A I its loop st = Inr (its', loop', stop, st')"
  shows "nopKept st st'"
  using scanItems_rel[OF preserved_preserved0[OF preserved_nopKept] _ assms] by simp

lemma chain_nopKept: "chain n A I block loop st = Inr st' \<Longrightarrow> nopKept st st'"
  using chain_rel[OF preserved_nopKept] by blast

lemma startChains_nopKept: "startChains n A I bs st = Inr st' \<Longrightarrow> nopKept st st'"
  using startChains_rel[OF preserved_nopKept] by blast

lemma consItem_thenItems:
  "consItem i (thenItems r k rest) = thenItems (consItem i r) k rest"
  by (auto simp: consItem_def thenItems_def split: sum.splits prod.splits)

lemma scanItems_append:
  "scanItems A I (pre @ rest) loop st =
     thenItems (scanItems A I pre loop st) (scanItems A I rest) rest"
proof (induction A I pre loop st rule: scanItems.induct)
  case (1 A I loop st)
  then show ?case by (auto simp: thenItems_def split: sum.splits)
next
  case (2 A I rest' loop st)
  then show ?case by (simp add: consItem_thenItems)
next
  case (3 A I currp rest' loop st)
  show ?case
  proof (cases "is_Loop (kind (nodes (heap st) (slots (heap st) currp)))")
    case True
    with "3.IH"(1) show ?thesis by (simp add: Let_def consItem_thenItems)
  next
    case nl: False
    show ?thesis
    proof (cases loop)
      case None
      with nl "3.IH"(2) show ?thesis by (simp add: Let_def consItem_thenItems)
    next
      case (Some l)
      show ?thesis
      proof (cases "branches (A (heap st) (slots (heap st) currp))")
        case True
        with nl Some show ?thesis by (simp add: Let_def thenItems_def)
      next
        case nb: False
        show ?thesis
        proof (cases "interestingToMove (heap st) (slots (heap st) currp)")
          case False
          with nl Some nb "3.IH"(4) show ?thesis by (simp add: Let_def consItem_thenItems)
        next
          case True
          from move_Inr[OF True] obtain ok st1 where m: "move A I currp l st = Inr (ok, st1)" by blast
          from "3.IH"(3)[OF refl nl Some nb True m refl] nl Some nb True m
          show ?thesis by (simp add: Let_def consItem_thenItems)
        qed
      qed
    qed
  qed
qed

lemma scanItems_single_step:
  assumes "\<not> is_Loop (kind (nodes (heap st) (slots (heap st) p)))"
  shows "scanItems A I (Some p # post) (Some l) st =
     (if branches (A (heap st) (slots (heap st) p)) then Inr (Some p # post, Some l, True, st)
      else if interestingToMove (heap st) (slots (heap st) p) then
        (case move A I p l st of
           Inl e \<Rightarrow> Inl e
         | Inr (moved, st') \<Rightarrow>
             consItem (if moved then None else Some p) (scanItems A I post (Some l) st'))
      else consItem (Some p) (scanItems A I post (Some l) st))"
  using assms by (simp add: Let_def)

lemma chainTrace_chain: "map_sum id snd (chainTrace n A I block loop st) = chain n A I block loop st"
proof (induction n arbitrary: block loop st)
  case 0
  show ?case by simp
next
  case (Suc n)
  obtain its l stop st1 where s: "scanItems A I (items (cfg st block)) loop st = Inr (its, l, stop, st1)"
    using scanItems_Inr by (metis prod_cases4)
  show ?case
    using Suc[of "hd (out (cfg (setItems block its st1) block))" l "setItems block its st1"]
    by (simp add: s Let_def split: sum.splits) (metis map_sum.simps old.sum.simps(4) snd_conv sum.simps(4))
qed

lemma chainTrace_hd:
  "chainTrace n A I block loop st = Inr (t, st') \<Longrightarrow> t \<noteq> [] \<and> hd t = block"
  by (cases n) (auto simp: Let_def split: sum.splits if_splits)

lemma startChainsTrace_startChains:
  "map_sum id snd (startChainsTrace n A I bs st) = startChains n A I bs st"
proof (induction bs arbitrary: st)
  case Nil
  show ?case by simp
next
  case (Cons b bs)
  show ?case
  proof (cases "chainTrace n A I b None st")
    case (Inl e)
    with chainTrace_chain[of n A I b None st] have "chain n A I b None st = Inl e" by simp
    with Inl show ?thesis by simp
  next
    case (Inr r)
    obtain t st1 where r: "r = (t, st1)" by (cases r)
    with Inr chainTrace_chain[of n A I b None st] have c: "chain n A I b None st = Inr st1" by simp
    show ?thesis
      by (cases "startChainsTrace n A I bs st1") (auto simp: Inr r c Cons[of st1, symmetric])
  qed
qed

lemma startChainsTrace_heads:
  "startChainsTrace n A I bs st = Inr (ts, st') \<Longrightarrow> map hd ts = bs \<and> [] \<notin> set ts"
proof (induction bs arbitrary: st ts)
  case Nil
  then show ?case by simp
next
  case (Cons b bs)
  from Cons.prems obtain t st1 ts1 where
    c: "chainTrace n A I b None st = Inr (t, st1)" and
    r: "startChainsTrace n A I bs st1 = Inr (ts1, st')" and ts: "ts = t # ts1"
    by (auto split: sum.splits)
  from Cons.IH[OF r] chainTrace_hd[OF c] ts show ?case by auto
qed

declare loopParent.simps [simp del]

lemma loopParent_Some:
  "loopParent h stack i = Some l \<Longrightarrow> is_Loop (kind (nodes h l)) \<and> (\<exists>j \<le> i. stack ! j = l)"
proof (induction h stack i rule: loopParent.induct)
  case (1 h stack i)
  show ?case
  proof (cases "is_Loop (kind (nodes h (stack ! i)))")
    case True
    with "1.prems" have "l = stack ! i" by (subst (asm) loopParent.simps) simp
    with True show ?thesis by auto
  next
    case False
    show ?thesis
    proof (cases "i = 0")
      case True
      with False "1.prems" show ?thesis by (subst (asm) loopParent.simps) simp
    next
      case ne: False
      with False "1.prems" have "loopParent h stack (i - 1) = Some l"
        by (subst (asm) loopParent.simps) simp
      from "1.IH"[OF False ne this] show ?thesis
        by (metis diff_le_self le_trans)
    qed
  qed
qed

lemma loopParent_numeral:
  "loopParent h stack (numeral k) =
     (if is_Loop (kind (nodes h (stack ! numeral k))) then Some (stack ! numeral k)
      else loopParent h stack (pred_numeral k))"
  "loopParent h stack 0 = (if is_Loop (kind (nodes h (stack ! 0))) then Some (stack ! 0) else None)"
  "loopParent h stack (Suc n) =
     (if is_Loop (kind (nodes h (stack ! Suc n))) then Some (stack ! Suc n)
      else loopParent h stack n)"
  by (subst loopParent.simps, simp add: numeral_eq_Suc)+

lemma ex_classified:
  "map (cfg (fold classify exEvents exUnclassified)) [0..<4] = exBlocks \<and>
   expressionLoops (fold classify exEvents exUnclassified) = expressionLoops exState \<and>
   heap (fold classify exEvents exUnclassified) = heap exState"
  by (simp add: exEvents_def exUnclassified_def visitExpression_def doStartLoop_def pushItem_def
      setItems_def Let_def loopParent_numeral exNodes_def exBlocks_def subscript_def upt_rec)

lemma walkedD:
  assumes "walked X st st'"
  shows "next_id st \<le> next_id st'" "next_slot st \<le> next_slot st'"
    "\<And>k. k < next_id st \<Longrightarrow> nodes (heap st') k = nodes (heap st) k"
    "\<And>l. movedOf st' l = movedOf st l"
    "\<And>q. q < next_slot st \<Longrightarrow> q \<in> X \<Longrightarrow> affected st q \<Longrightarrow> wrapped st st' q"
    "\<And>q. q < next_slot st \<Longrightarrow> \<not> (q \<in> X \<and> affected st q) \<Longrightarrow> slots (heap st') q = slots (heap st) q"
    "\<And>c. next_slot st \<le> c \<Longrightarrow> c < next_slot st' \<Longrightarrow>
        \<exists>q \<in> X. q < next_slot st \<and> affected st q \<and>
           c \<in> set (children (nodes (heap st') (slots (heap st') q)))"
  using assms unfolding walked_def by (blast, blast, blast, blast, metis, metis, blast)

lemma walked_empty: "walked {} st st"
  by (simp add: walked_def)

lemma subtree_frame:
  "subtree n h p = Some S \<Longrightarrow>
   (\<And>q. q \<in> set S \<Longrightarrow> slots h' q = slots h q \<and> nodes h' (slots h q) = nodes h (slots h q)) \<Longrightarrow>
   subtree n h' p = Some S"
  "subtrees n h ps = Some S \<Longrightarrow>
   (\<And>q. q \<in> set S \<Longrightarrow> slots h' q = slots h q \<and> nodes h' (slots h q) = nodes h (slots h q)) \<Longrightarrow>
   subtrees n h' ps = Some S"
proof (induction n h p and n h ps arbitrary: S and S rule: subtree_subtrees.induct)
  case (1 h p)
  then show ?case by simp
next
  case (2 n h p)
  from "2.prems"(1) obtain xs where
    xs: "subtrees n h (children (nodes h (slots h p))) = Some xs" and S: "S = p # xs"
    by (auto split: option.splits)
  have p: "slots h' p = slots h p" "nodes h' (slots h p) = nodes h (slots h p)"
    using "2.prems"(2)[of p] S by simp_all
  have "subtrees n h' (children (nodes h (slots h p))) = Some xs"
    by (rule "2.IH"[OF xs]) (use "2.prems"(2) S in auto)
  with p S show ?case by simp
next
  case (3 n h)
  then show ?case by simp
next
  case (4 n h c cs)
  from "4.prems"(1) obtain xs ys where
    xs: "subtree n h c = Some xs" and ys: "subtrees n h cs = Some ys" and S: "S = xs @ ys"
    by (auto split: option.splits)
  have "subtree n h' c = Some xs"
    by (rule "4.IH"(1)[OF xs]) (use "4.prems"(2) S in auto)
  moreover have "subtrees n h' cs = Some ys"
    by (rule "4.IH"(2)[OF xs ys]) (use "4.prems"(2) S in auto)
  ultimately show ?case using S by simp
qed

lemma visitLoop_movedOf' [simp]: "movedOf (visitLoop p st) l = movedOf st l"
  by (rule visitLoop_movedOf)

lemma visitLoop_sizes:
  assumes "movedOf st (slots (heap st) currp) \<noteq> []"
  shows "next_id (visitLoop currp st) = Suc (next_id st)"
    "next_slot (visitLoop currp st) = Suc (next_slot st + length (movedOf st (slots (heap st) currp)))"
    "children (nodes (heap (visitLoop currp st)) (next_id st)) =
       [next_slot st ..< Suc (next_slot st + length (movedOf st (slots (heap st) currp)))]"
  using assms
  by (simp_all add: visitLoop_def movedOf_def Let_def split_beta makeBlock_def push_back_def finalize_def)

lemma affected_cong:
  assumes "slots (heap s1) q = slots (heap st) q"
    "nodes (heap s1) (slots (heap st) q) = nodes (heap st) (slots (heap st) q)"
    "\<And>l. movedOf s1 l = movedOf st l"
  shows "affected s1 q \<longleftrightarrow> affected st q"
  using assms by (simp add: affected_def)

lemma visitLoop_walked:
  assumes p: "p < next_slot s" and a: "slots (heap s) p < next_id s"
    and l: "is_Loop (kind (nodes (heap s) (slots (heap s) p)))"
  shows "walked {p} s (visitLoop p s)"
proof (cases "movedOf s (slots (heap s) p) = []")
  case True
  then have "\<not> affected s p" by (simp add: affected_def)
  then show ?thesis
    by (simp add: walked_def visitLoop_empty[OF True] movedOf_def subscript_again)
next
  case False
  note w = visitLoop_wraps[OF False p a] and z = visitLoop_sizes[OF False]
  have aff: "affected s p" using False l by (simp add: affected_def)
  have wr: "wrapped s (visitLoop p s) p"
    unfolding wrapped_def
  proof (intro conjI ballI)
    show "next_id s \<le> slots (heap (visitLoop p s)) p" by (simp add: w(1))
    show "slots (heap (visitLoop p s)) p < next_id (visitLoop p s)" by (simp add: w(1) z(1))
    show "is_Block (kind (nodes (heap (visitLoop p s)) (slots (heap (visitLoop p s)) p)))"
      by (simp add: w(1,2))
    show "type (nodes (heap (visitLoop p s)) (slots (heap (visitLoop p s)) p)) =
        type (nodes (heap s) (slots (heap s) p))"
      by (simp add: w(1,3))
    show "map (slots (heap (visitLoop p s)))
        (children (nodes (heap (visitLoop p s)) (slots (heap (visitLoop p s)) p))) =
        movedOf s (slots (heap s) p) @ [slots (heap s) p]"
      by (simp only: w(1,4))
  next
    fix c assume "c \<in> set (children (nodes (heap (visitLoop p s)) (slots (heap (visitLoop p s)) p)))"
    then show "next_slot s \<le> c" "c < next_slot (visitLoop p s)"
      by (auto simp: w(1) z)
  qed
  show ?thesis
    unfolding walked_def
  proof (intro conjI allI impI)
    show "next_id s \<le> next_id (visitLoop p s)" by (rule visitLoop_frame)
    show "next_slot s \<le> next_slot (visitLoop p s)" by (rule visitLoop_frame)
  next
    fix k assume "k < next_id s"
    then show "nodes (heap (visitLoop p s)) k = nodes (heap s) k" by (rule visitLoop_frame)
  next
    fix l show "movedOf (visitLoop p s) l = movedOf s l" by simp
  next
    fix q assume q: "q < next_slot s"
    show "if q \<in> {p} \<and> affected s q then wrapped s (visitLoop p s) q
          else slots (heap (visitLoop p s)) q = slots (heap s) q"
      using wr aff q visitLoop_frame(4)[of q s p] by auto
  next
    fix c assume c: "next_slot s \<le> c" "c < next_slot (visitLoop p s)"
    then have "c \<in> set (children (nodes (heap (visitLoop p s)) (slots (heap (visitLoop p s)) p)))"
      by (auto simp: w(1) z)
    with p aff show "\<exists>q\<in>{p}. q < next_slot s \<and> affected s q \<and>
        c \<in> set (children (nodes (heap (visitLoop p s)) (slots (heap (visitLoop p s)) q)))"
      by simp
  qed
qed

lemma walked_skip:
  assumes "\<not> is_Loop (kind (nodes (heap s) (slots (heap s) p)))"
  shows "walked {p} s s"
  using assms by (simp add: walked_def affected_def)

lemma wrapped_later:
  assumes w: "wrapped st s1 q" and b: "walked Y s1 s2"
    and qY: "q \<notin> Y" and q: "q < next_slot st" and le: "next_slot st \<le> next_slot s1"
    and Y: "\<And>y. y \<in> Y \<Longrightarrow> y < next_slot st"
  shows "wrapped st s2 q"
proof -
  let ?b = "slots (heap s1) q"
  from w have w1: "next_id st \<le> ?b" "?b < next_id s1"
    "is_Block (kind (nodes (heap s1) ?b))"
    "type (nodes (heap s1) ?b) = type (nodes (heap st) (slots (heap st) q))"
    "map (slots (heap s1)) (children (nodes (heap s1) ?b)) =
       movedOf st (slots (heap st) q) @ [slots (heap st) q]"
    "\<And>c. c \<in> set (children (nodes (heap s1) ?b)) \<Longrightarrow> next_slot st \<le> c \<and> c < next_slot s1"
    unfolding wrapped_def by blast+
  have q1: "q < next_slot s1" using q le by simp
  have sq: "slots (heap s2) q = ?b"
    using walkedD(6)[OF b q1] qY by blast
  have nb: "nodes (heap s2) ?b = nodes (heap s1) ?b"
    using walkedD(3)[OF b w1(2)] .
  have cs: "map (slots (heap s2)) (children (nodes (heap s1) ?b)) =
      map (slots (heap s1)) (children (nodes (heap s1) ?b))"
  proof (rule map_cong[OF refl])
    fix c assume c: "c \<in> set (children (nodes (heap s1) ?b))"
    from w1(6)[OF c] have c1: "next_slot st \<le> c" "c < next_slot s1" by simp_all
    have "c \<notin> Y" using Y[of c] c1(1) by auto
    with walkedD(6)[OF b c1(2)] show "slots (heap s2) c = slots (heap s1) c" by blast
  qed
  show ?thesis
    unfolding wrapped_def sq nb
  proof (intro conjI ballI)
    show "next_id st \<le> ?b" by (rule w1(1))
    show "?b < next_id s2" using w1(2) walkedD(1)[OF b] by simp
    show "is_Block (kind (nodes (heap s1) ?b))" by (rule w1(3))
    show "type (nodes (heap s1) ?b) = type (nodes (heap st) (slots (heap st) q))" by (rule w1(4))
    show "map (slots (heap s2)) (children (nodes (heap s1) ?b)) =
       movedOf st (slots (heap st) q) @ [slots (heap st) q]"
      using cs w1(5) by simp
  next
    fix c assume c: "c \<in> set (children (nodes (heap s1) ?b))"
    from w1(6)[OF c] walkedD(2)[OF b]
    show "next_slot st \<le> c" "c < next_slot s2" by simp_all
  qed
qed

lemma wrapped_earlier:
  assumes w: "wrapped s1 s2 q" and a: "walked X st s1"
    and sq: "slots (heap s1) q = slots (heap st) q" and al: "slots (heap st) q < next_id st"
  shows "wrapped st s2 q"
proof -
  have n: "nodes (heap s1) (slots (heap st) q) = nodes (heap st) (slots (heap st) q)"
    using walkedD(3)[OF a al] .
  from w show ?thesis
    unfolding wrapped_def sq n walkedD(4)[OF a]
    using walkedD(1,2)[OF a] by auto
qed

lemma walked_trans:
  assumes a: "walked X st s1" and b: "walked Y s1 s2"
    and disj: "X \<inter> Y = {}"
    and lv: "\<And>q. q \<in> X \<union> Y \<Longrightarrow> q < next_slot st \<and> slots (heap st) q < next_id st"
  shows "walked (X \<union> Y) st s2"
proof -
  have le: "next_slot st \<le> next_slot s1" "next_id st \<le> next_id s1"
    using walkedD(1,2)[OF a] by simp_all
  have Yl: "\<And>y. y \<in> Y \<Longrightarrow> y < next_slot st" using lv by blast
  have affY: "affected s1 q \<longleftrightarrow> affected st q" if "q \<in> Y" for q
  proof -
    from that disj have "q \<notin> X" by blast
    with walkedD(6)[OF a, of q] lv[of q] that have "slots (heap s1) q = slots (heap st) q" by blast
    moreover have "nodes (heap s1) (slots (heap st) q) = nodes (heap st) (slots (heap st) q)"
      using walkedD(3)[OF a] lv[of q] that by blast
    ultimately show ?thesis using walkedD(4)[OF a] by (rule affected_cong)
  qed
  show ?thesis
    unfolding walked_def
  proof (intro conjI allI impI)
    show "next_id st \<le> next_id s2" using walkedD(1)[OF a] walkedD(1)[OF b] by simp
    show "next_slot st \<le> next_slot s2" using walkedD(2)[OF a] walkedD(2)[OF b] by simp
  next
    fix k assume k: "k < next_id st"
    then have "k < next_id s1" using le by simp
    from walkedD(3)[OF b this] walkedD(3)[OF a k]
    show "nodes (heap s2) k = nodes (heap st) k" by simp
  next
    fix l show "movedOf s2 l = movedOf st l"
      using walkedD(4)[OF a] walkedD(4)[OF b] by simp
  next
    fix q assume q: "q < next_slot st"
    then have q1: "q < next_slot s1" using le by simp
    show "if q \<in> X \<union> Y \<and> affected st q then wrapped st s2 q
          else slots (heap s2) q = slots (heap st) q"
    proof (cases "q \<in> X \<and> affected st q")
      case True
      then have "q \<notin> Y" using disj by blast
      from wrapped_later[OF walkedD(5)[OF a q] b this q le(1) Yl] True
      show ?thesis by simp
    next
      case nX: False
      from walkedD(6)[OF a q nX] have sq: "slots (heap s1) q = slots (heap st) q" .
      show ?thesis
      proof (cases "q \<in> Y \<and> affected st q")
        case True
        then have "affected s1 q" using affY by blast
        from walkedD(5)[OF b q1] True this have "wrapped s1 s2 q" by blast
        from wrapped_earlier[OF this a sq] lv[of q] True show ?thesis by simp
      next
        case False
        then have "\<not> (q \<in> Y \<and> affected s1 q)" using affY by blast
        from walkedD(6)[OF b q1 this] sq nX False show ?thesis by auto
      qed
    qed
  next
    fix c assume c: "next_slot st \<le> c" "c < next_slot s2"
    show "\<exists>q \<in> X \<union> Y. q < next_slot st \<and> affected st q \<and>
           c \<in> set (children (nodes (heap s2) (slots (heap s2) q)))"
    proof (cases "c < next_slot s1")
      case True
      from walkedD(7)[OF a c(1) True] obtain q where
        q: "q \<in> X" "q < next_slot st" "affected st q"
        "c \<in> set (children (nodes (heap s1) (slots (heap s1) q)))" by blast
      from walkedD(5)[OF a q(2) q(1) q(3)] have w: "wrapped st s1 q" .
      then have bq: "slots (heap s1) q < next_id s1" by (simp add: wrapped_def)
      have "q \<notin> Y" using q(1) disj by blast
      then have "slots (heap s2) q = slots (heap s1) q"
        using walkedD(6)[OF b, of q] q(2) le by auto
      moreover have "nodes (heap s2) (slots (heap s1) q) = nodes (heap s1) (slots (heap s1) q)"
        using walkedD(3)[OF b bq] .
      ultimately show ?thesis using q by auto
    next
      case False
      then have "next_slot s1 \<le> c" by simp
      from walkedD(7)[OF b this c(2)] obtain q where
        q: "q \<in> Y" "affected s1 q"
        "c \<in> set (children (nodes (heap s2) (slots (heap s2) q)))" by blast
      with affY Yl show ?thesis by blast
    qed
  qed
qed

lemma placed_append: "placed st (xs @ ys) \<Longrightarrow> placed st xs \<and> placed st ys \<and> set xs \<inter> set ys = {}"
  by (auto simp: placed_def)

lemma placed_Cons: "placed st (p # xs) \<Longrightarrow> placed st xs \<and> p \<notin> set xs \<and> p < next_slot st \<and> slots (heap st) p < next_id st"
  by (auto simp: placed_def)

lemma placed_walked:
  assumes w: "walked X st s1" and p: "placed st S" and d: "X \<inter> set S = {}"
  shows "placed s1 S"
    "\<And>q. q \<in> set S \<Longrightarrow> slots (heap s1) q = slots (heap st) q \<and>
        nodes (heap s1) (slots (heap st) q) = nodes (heap st) (slots (heap st) q)"
proof -
  show *: "slots (heap s1) q = slots (heap st) q \<and>
        nodes (heap s1) (slots (heap st) q) = nodes (heap st) (slots (heap st) q)" if "q \<in> set S" for q
  proof -
    from that p have q: "q < next_slot st" "slots (heap st) q < next_id st" by (auto simp: placed_def)
    from that d have "q \<notin> X" by blast
    with walkedD(6)[OF w q(1)] walkedD(3)[OF w q(2)] show ?thesis by blast
  qed
  show "placed s1 S"
    unfolding placed_def
  proof (intro conjI ballI)
    show "distinct S" using p by (simp add: placed_def)
  next
    fix q assume q: "q \<in> set S"
    with p have "q < next_slot st" "slots (heap st) q < next_id st" by (auto simp: placed_def)
    with *[OF q] walkedD(1,2)[OF w]
    show "q < next_slot s1" "slots (heap s1) q < next_id s1" by simp_all
  qed
qed

lemma walkList_walked:
  assumes IH: "\<And>p (st :: 'p licm) S. subtree n (heap st) p = Some S \<Longrightarrow> placed st S \<Longrightarrow>
      \<exists>st'. walk n p st = Inr st' \<and> walked (set S) st st'"
  shows "subtrees n (heap st) ps = Some S \<Longrightarrow> placed st S \<Longrightarrow>
      \<exists>st'. walkList n ps (st :: 'p licm) = Inr st' \<and> walked (set S) st st'"
proof (induction ps arbitrary: st S)
  case Nil
  then show ?case by (simp add: walked_empty)
next
  case (Cons c cs)
  from Cons.prems(1) obtain xs ys where
    xs: "subtree n (heap st) c = Some xs" and ys: "subtrees n (heap st) cs = Some ys"
    and S: "S = xs @ ys"
    by (auto split: option.splits)
  from Cons.prems(2) S have pl: "placed st xs" "placed st ys" "set xs \<inter> set ys = {}"
    using placed_append by blast+
  from IH[OF xs pl(1)] obtain s1 where w1: "walk n c st = Inr s1" and a: "walked (set xs) st s1"
    by blast
  note f = placed_walked[OF a pl(2) pl(3)]
  have ys1: "subtrees n (heap s1) cs = Some ys"
    by (rule subtree_frame(2)[OF ys]) (use f(2) in blast)
  from Cons.IH[OF ys1 f(1)] obtain s2 where w2: "walkList n cs s1 = Inr s2"
    and b: "walked (set ys) s1 s2" by blast
  have "walked (set xs \<union> set ys) st s2"
    by (rule walked_trans[OF a b pl(3)]) (use pl in \<open>auto simp: placed_def\<close>)
  with w1 w2 S show ?case by simp
qed

lemma walk_walked:
  "subtree n (heap st) p = Some S \<Longrightarrow> placed st S \<Longrightarrow>
      \<exists>st'. walk n p (st :: 'p licm) = Inr st' \<and> walked (set S) st st'"
proof (induction n arbitrary: p st S)
  case 0
  then show ?case by simp
next
  case (Suc n)
  let ?cur = "slots (heap st) p"
  from Suc.prems(1) obtain xs where
    xs: "subtrees n (heap st) (children (nodes (heap st) ?cur)) = Some xs" and S: "S = p # xs"
    by (auto split: option.splits)
  from Suc.prems(2) S have pl: "placed st xs" "p \<notin> set xs" "p < next_slot st" "?cur < next_id st"
    using placed_Cons by blast+
  from walkList_walked[OF Suc.IH xs pl(1)] obtain s1 where
    w1: "walkList n (children (nodes (heap st) ?cur)) st = Inr s1" and a: "walked (set xs) st s1"
    by blast
  have pp: "placed st [p]" using pl by (simp add: placed_def)
  have d: "set xs \<inter> set [p] = {}" using pl(2) by simp
  note f = placed_walked[OF a pp d]
  have sp: "slots (heap s1) p = ?cur" and np: "nodes (heap s1) ?cur = nodes (heap st) ?cur"
    using f(2)[of p] by simp_all
  have p1: "p < next_slot s1" "slots (heap s1) p < next_id s1"
    using f(1) by (simp_all add: placed_def)
  have lv: "\<And>q. q \<in> set xs \<union> {p} \<Longrightarrow> q < next_slot st \<and> slots (heap st) q < next_id st"
    using pl by (auto simp: placed_def)
  have dj: "set xs \<inter> {p} = {}" using pl(2) by simp
  show ?case
  proof (cases "is_Loop (kind (nodes (heap st) ?cur))")
    case True
    then have "is_Loop (kind (nodes (heap s1) (slots (heap s1) p)))" by (simp add: sp np)
    from visitLoop_walked[OF p1 this] have b: "walked {p} s1 (visitLoop p s1)" .
    from walked_trans[OF a b dj lv] have "walked (set S) st (visitLoop p s1)"
      by (simp add: S Un_commute)
    with True w1 show ?thesis by (simp add: Let_def)
  next
    case False
    then have "\<not> is_Loop (kind (nodes (heap s1) (slots (heap s1) p)))" by (simp add: sp np)
    from walked_skip[OF this] have b: "walked {p} s1 s1" .
    from walked_trans[OF a b dj lv] have "walked (set S) st s1"
      by (simp add: S Un_commute)
    with False w1 show ?thesis by (simp add: Let_def)
  qed
qed

section \<open>Ownership of the moved code\<close>







lemma owned_loops [simp]: "owned T (st\<lparr>loops := ls\<rparr>) = owned T st"
  by (simp add: owned_def movedOf_def)






section \<open>Chains that end, items that are cleared, the tree after the scan\<close>

lemma outs_setItems [simp]: "outs (setItems b its st) = outs st"
  by (auto simp: outs_def setItems_def)

lemma scanItems_outs:
  "scanItems A I its loop st = Inr (its', loop', stop, st') \<Longrightarrow> outs st' = outs st"
  by (simp add: outs_def scanItems_cfg)

lemma shrunk_outs: "shrunk s s' \<Longrightarrow> outs s' = outs s"
  by (auto simp: shrunk_def outs_def)

lemma chain_returns:
  "straight n (outs st) b \<Longrightarrow> \<exists>st'. chain n A I b loop st = Inr st'"
proof (induction n arbitrary: b loop st)
  case 0
  then show ?case by simp
next
  case (Suc n)
  obtain its l stop st1 where
    sc: "scanItems A I (items (cfg st b)) loop st = Inr (its, l, stop, st1)"
    using scanItems_Inr by (metis prod_cases4)
  let ?st2 = "setItems b its st1"
  have o: "outs ?st2 = outs st" using scanItems_outs[OF sc] by simp
  show ?case
  proof (cases "stop \<or> length (out (cfg ?st2 b)) \<noteq> 1")
    case True
    then show ?thesis by (simp add: sc Let_def)
  next
    case False
    have "out (cfg ?st2 b) = outs ?st2 b" by (simp add: outs_def)
    with False o have len: "length (outs st b) = 1" by simp
    with Suc.prems have "straight n (outs st) (hd (outs st b))" by simp
    then have "straight n (outs ?st2) (hd (out (cfg ?st2 b)))"
      using o \<open>out (cfg ?st2 b) = outs ?st2 b\<close> by simp
    from Suc.IH[OF this, of l] obtain st' where
      "chain n A I (hd (out (cfg ?st2 b))) l ?st2 = Inr st'" by blast
    with False show ?thesis by (simp add: sc Let_def)
  qed
qed

lemma startChains_returns:
  "\<forall>b \<in> set bs. straight n (outs st) b \<Longrightarrow> \<exists>st'. startChains n A I bs st = Inr st'"
proof (induction bs arbitrary: st)
  case Nil
  show ?case by simp
next
  case (Cons b bs)
  from Cons.prems have "straight n (outs st) b" by simp
  from chain_returns[OF this] obtain st1 where ch: "chain n A I b None st = Inr st1" by blast
  have "outs st1 = outs st" using chain_shrunk[OF ch] by (rule shrunk_outs)
  with Cons.prems have "\<forall>b \<in> set bs. straight n (outs st1) b" by simp
  from Cons.IH[OF this] obtain st' where "startChains n A I bs st1 = Inr st'" by blast
  with ch show ?case by simp
qed

lemma chainTrace_Inr: "chain n A I b loop st = Inr st' \<Longrightarrow> \<exists>t. chainTrace n A I b loop st = Inr (t, st')"
  using chainTrace_chain[of n A I b loop st]
  by (cases "chainTrace n A I b loop st") auto

lemma startChainsTrace_Inr:
  "startChains n A I bs st = Inr st' \<Longrightarrow> \<exists>ts. startChainsTrace n A I bs st = Inr (ts, st')"
  using startChainsTrace_startChains[of n A I bs st]
  by (cases "startChainsTrace n A I bs st") auto

text \<open>The chain from a block that is its own single successor and has no loop among its items.\<close>

lemma scanItems_no_loop:
  "\<forall>p. Some p \<in> set its \<longrightarrow> \<not> is_Loop (kind (nodes (heap st) (slots (heap st) p))) \<Longrightarrow>
   scanItems A I its None st = Inr (its, None, False, st)"
proof (induction "its")
  case Nil
  show ?case by simp
next
  case (Cons a its)
  then show ?case by (cases a) (auto simp: consItem_def Let_def)
qed

lemma setItems_same [simp]: "setItems b (items (cfg st b)) st = st"
  by (simp add: setItems_def)

lemma chain_spins:
  assumes "out (cfg st b) = [b]"
    and "\<forall>p. Some p \<in> set (items (cfg st b)) \<longrightarrow> \<not> is_Loop (kind (nodes (heap st) (slots (heap st) p)))"
  shows "chain n A I b None st = Inl OutOfFuel"
proof (induction n)
  case 0
  show ?case by simp
next
  case (Suc n)
  show ?case
    by (simp add: scanItems_no_loop[OF assms(2)] assms(1) Suc del: scanItems.simps)
qed

lemma set_somes [simp]: "x \<in> set (somes xs) \<longleftrightarrow> Some x \<in> set xs"
  by (induction xs) (auto simp: somes_def)














lemma treeKept_refl: "treeKept n body s s"
  by (auto simp: treeKept_def)





lemma outs_loops [simp]: "outs (st\<lparr>loops := x\<rparr>) = outs st"
  by (simp add: outs_def)




lemma straight_numeral:
  "straight (numeral k) succs b = (length (succs b) \<noteq> 1 \<or> straight (pred_numeral k) succs (hd (succs b)))"
  by (simp add: numeral_eq_Suc)






lemma ex_straight: "\<forall>b \<in> set (basicBlocks exState). straight 10 (outs exState) b"
  by (simp add: straight_numeral outs_def exBlocks_def)


lemma exOrder_sel [simp]:
  "slots (heap exOrder) p = p - 100"
  "nodes (heap exOrder) e = (if e < 12 then exOrderNodes ! e else nopNode)"
  "next_id exOrder = 12" "next_slot exOrder = 112"
  "basicBlocks exOrder = [0, 1, 2, 3, 4, 5]" "movedCode exOrder = []" "loops exOrder = []"
  "expressionLoops exOrder = map (\<lambda>e. (e, Some 3)) [11, 9, 10, 7, 5, 8, 6, 4]"
  "cfg exOrder b = (if b < 6 then exOrderBlocks ! b else \<lparr>items = [], out = []\<rparr>)"
  by (simp_all add: exOrder_def)

lemma exOrder_classified:
  "map (cfg (fold classify exOrderEvents exOrderUnclassified)) [0..<6] = exOrderBlocks \<and>
   expressionLoops (fold classify exOrderEvents exOrderUnclassified) = expressionLoops exOrder \<and>
   heap (fold classify exOrderEvents exOrderUnclassified) = heap exOrder"
  by (simp add: exOrderEvents_def exOrderUnclassified_def visitExpression_def doStartLoop_def pushItem_def
      setItems_def Let_def loopParent_numeral exOrderNodes_def exOrderBlocks_def subscript_def upt_rec)

section \<open>Semantic equivalence\<close>

text \<open>
  C1 fails on the first function. Its loop adds one to \<open>x\<close> and takes one from \<open>y\<close>
  until \<open>y\<close> is zero. The statement that adds one to \<open>x\<close> reads and writes \<open>x\<close> only,
  the rest of the loop touches \<open>y\<close> only, so \<^verbatim>\<open>move\<close> finds no conflict and moves the
  statement in front of the loop, where it runs once. From \<open>x = 5\<close> and \<open>y = 3\<close> the
  body returns 8 before the pass and 6 after it.
\<close>

theorem hoists_self_dependent_statement:
  "\<exists>st'. findAndMove 10 (effectsOf 10) conflicts 100 exState = Inr st' \<and>
     movedOf st' 1 = [4] \<and>
     run 30 (heap exState) 100 [5, 3] = Some (Some 8, [8, 0]) \<and>
     run 30 (heap st') 100 [5, 3] = Some (Some 6, [6, 0])"
  by (simp add: evl findAndMove_def visitLoop_def makeBlock_def push_back_def finalize_def
      storeList_def upt_rec run_def exec_numeral)

section \<open>The scan of a chain\<close>

text \<open>
  C2, as amended: in the scan of the items of a chain, with a current loop, an item that
  has not been nulled and whose slot holds an expression that is not a loop stops the
  scan when the effects of the expression report a branch: the items after it are left
  as they are, the state is the one reached before the item, and the chain ends there
  whatever the successors of the block are. When they report no branch, an expression
  that is not interesting to move is passed over with no change of the state, and an
  interesting one is handed to \<^verbatim>\<open>move\<close>, its item nulled when the move succeeds. An
  item whose slot holds a loop makes that loop the current one and never stops the scan.
  When the items of a block are exhausted without a stop, the chain goes on into the
  successor exactly when the block has one outgoing edge, and ends otherwise.
\<close>

theorem scan_stops_at_branch:
  "(scanItems A I pre cl st = Inr (pre', Some l, False, s1) \<longrightarrow>
      \<not> is_Loop (kind (nodes (heap s1) (slots (heap s1) p))) \<longrightarrow>
      branches (A (heap s1) (slots (heap s1) p)) \<longrightarrow>
        scanItems A I (pre @ Some p # post) cl st = Inr (pre' @ Some p # post, Some l, True, s1)) \<and>
   (scanItems A I (items (cfg st block)) cl st = Inr (its, cl', True, s2) \<longrightarrow>
        chain (Suc n) A I block cl st = Inr (setItems block its s2)) \<and>
   (scanItems A I pre cl st = Inr (pre', Some l, False, s1) \<longrightarrow>
      \<not> is_Loop (kind (nodes (heap s1) (slots (heap s1) p))) \<longrightarrow>
      \<not> branches (A (heap s1) (slots (heap s1) p)) \<longrightarrow>
      \<not> interestingToMove (heap s1) (slots (heap s1) p) \<longrightarrow>
        scanItems A I (pre @ [Some p]) cl st = Inr (pre' @ [Some p], Some l, False, s1)) \<and>
   (scanItems A I pre cl st = Inr (pre', Some l, False, s1) \<longrightarrow>
      \<not> is_Loop (kind (nodes (heap s1) (slots (heap s1) p))) \<longrightarrow>
      \<not> branches (A (heap s1) (slots (heap s1) p)) \<longrightarrow>
      interestingToMove (heap s1) (slots (heap s1) p) \<longrightarrow>
        (\<exists>moved s3. move A I p l s1 = Inr (moved, s3) \<and>
           scanItems A I (pre @ [Some p]) cl st =
             Inr (pre' @ [if moved then None else Some p], Some l, False, s3))) \<and>
   (scanItems A I pre cl st = Inr (pre', cl1, False, s1) \<longrightarrow>
      is_Loop (kind (nodes (heap s1) (slots (heap s1) p))) \<longrightarrow>
        scanItems A I (pre @ [Some p]) cl st =
          Inr (pre' @ [Some p], Some (slots (heap s1) p), False, s1\<lparr>loops := loops s1 @ [p]\<rparr>)) \<and>
   (scanItems A I (items (cfg st block)) cl st = Inr (its, cl', False, s2) \<longrightarrow>
        chain (Suc n) A I block cl st =
          (if length (out (cfg st block)) = 1
           then chain n A I (hd (out (cfg st block))) cl' (setItems block its s2)
           else Inr (setItems block its s2)))"
proof (intro conjI impI)
  assume "scanItems A I pre cl st = Inr (pre', Some l, False, s1)"
    "\<not> is_Loop (kind (nodes (heap s1) (slots (heap s1) p)))"
    "branches (A (heap s1) (slots (heap s1) p))"
  then show "scanItems A I (pre @ Some p # post) cl st = Inr (pre' @ Some p # post, Some l, True, s1)"
    by (simp add: scanItems_append thenItems_def scanItems_single_step)
next
  assume "scanItems A I (items (cfg st block)) cl st = Inr (its, cl', True, s2)"
  then show "chain (Suc n) A I block cl st = Inr (setItems block its s2)"
    by simp
next
  assume "scanItems A I pre cl st = Inr (pre', Some l, False, s1)"
    "\<not> is_Loop (kind (nodes (heap s1) (slots (heap s1) p)))"
    "\<not> branches (A (heap s1) (slots (heap s1) p))"
    "\<not> interestingToMove (heap s1) (slots (heap s1) p)"
  then show "scanItems A I (pre @ [Some p]) cl st = Inr (pre' @ [Some p], Some l, False, s1)"
    by (simp add: scanItems_append thenItems_def scanItems_single_step consItem_def)
next
  assume a: "scanItems A I pre cl st = Inr (pre', Some l, False, s1)"
    "\<not> is_Loop (kind (nodes (heap s1) (slots (heap s1) p)))"
    "\<not> branches (A (heap s1) (slots (heap s1) p))"
    and i: "interestingToMove (heap s1) (slots (heap s1) p)"
  from move_Inr[OF i] obtain moved s3 where m: "move A I p l s1 = Inr (moved, s3)" by blast
  with a i have "scanItems A I (pre @ [Some p]) cl st =
             Inr (pre' @ [if moved then None else Some p], Some l, False, s3)"
    by (simp add: scanItems_append thenItems_def scanItems_single_step consItem_def)
  with m show "\<exists>moved s3. move A I p l s1 = Inr (moved, s3) \<and>
           scanItems A I (pre @ [Some p]) cl st =
             Inr (pre' @ [if moved then None else Some p], Some l, False, s3)"
    by blast
next
  assume "scanItems A I pre cl st = Inr (pre', cl1, False, s1)"
    "is_Loop (kind (nodes (heap s1) (slots (heap s1) p)))"
  then show "scanItems A I (pre @ [Some p]) cl st =
          Inr (pre' @ [Some p], Some (slots (heap s1) p), False, s1\<lparr>loops := loops s1 @ [p]\<rparr>)"
    by (simp add: scanItems_append thenItems_def consItem_def Let_def)
next
  assume s: "scanItems A I (items (cfg st block)) cl st = Inr (its, cl', False, s2)"
  have "cfg s2 = cfg st" using s by (rule scanItems_cfg)
  with s show "chain (Suc n) A I block cl st =
          (if length (out (cfg st block)) = 1
           then chain n A I (hd (out (cfg st block))) cl' (setItems block its s2)
           else Inr (setItems block its s2))"
    by (simp add: Let_def setItems_def)
qed

theorem scan_stops_at_branch_witness:
  "scanItems (effectsOf 10) conflicts (items (cfg exState 1)) (Some 1) exState =
     Inr (map Some [108, 109, 107] @ [None] @ map Some [111, 112, 110, 105, 113, 106], Some 1, True, exMoved) \<and>
   branches (effectsOf 10 (heap exMoved) (slots (heap exMoved) 106)) \<and>
   chain 10 (effectsOf 10) conflicts 1 (Some 1) exState =
     Inr (setItems 1 (map Some [108, 109, 107] @ [None] @ map Some [111, 112, 110, 105, 113, 106]) exMoved) \<and>
   scanItems (effectsOf 10) conflicts [Some 108] (Some 1) exState = Inr ([Some 108], Some 1, False, exState) \<and>
   scanItems (effectsOf 10) conflicts (map Some [108, 109, 107, 104]) (Some 1) exState =
     Inr (map Some [108, 109, 107] @ [None], Some 1, False, exMoved) \<and>
   scanItems (effectsOf 10) conflicts [Some 101] None exState =
     Inr ([Some 101], Some 1, False, exState\<lparr>loops := [101]\<rparr>) \<and>
   chain 10 (effectsOf 10) conflicts 0 None exState =
     chain 9 (effectsOf 10) conflicts 1 (Some 1) (setItems 0 [Some 101] (exState\<lparr>loops := [101]\<rparr>))"
proof -
  note T = scan_stops_at_branch[where A="effectsOf 10" and I=conflicts and st=exState]
  have b6: "\<not> is_Loop (kind (nodes (heap exMoved) (slots (heap exMoved) 106)))"
    "branches (effectsOf 10 (heap exMoved) (slots (heap exMoved) 106))"
    by (simp_all add: evl)
  have "scanItems (effectsOf 10) conflicts
          (map Some [108, 109, 107, 104, 111, 112, 110, 105, 113] @ Some 106 # []) (Some 1) exState =
        Inr ((map Some [108, 109, 107] @ [None] @ map Some [111, 112, 110, 105, 113]) @ Some 106 # [],
             Some 1, True, exMoved)"
    by (rule T[THEN conjunct1, rule_format, OF ex_scan_pre b6])
  then have 1: "scanItems (effectsOf 10) conflicts (items (cfg exState 1)) (Some 1) exState =
     Inr (map Some [108, 109, 107] @ [None] @ map Some [111, 112, 110, 105, 113, 106], Some 1, True, exMoved)"
    by (simp add: exBlocks_def del: scanItems.simps)
  have "chain (Suc 9) (effectsOf 10) conflicts 1 (Some 1) exState =
     Inr (setItems 1 (map Some [108, 109, 107] @ [None] @ map Some [111, 112, 110, 105, 113, 106]) exMoved)"
    by (rule T[THEN conjunct2, THEN conjunct1, rule_format, OF 1])
  then have 2: "chain 10 (effectsOf 10) conflicts 1 (Some 1) exState =
     Inr (setItems 1 (map Some [108, 109, 107] @ [None] @ map Some [111, 112, 110, 105, 113, 106]) exMoved)"
    by (simp del: chain.simps)
  have n8: "\<not> is_Loop (kind (nodes (heap exState) (slots (heap exState) 108)))"
    "\<not> branches (effectsOf 10 (heap exState) (slots (heap exState) 108))"
    "\<not> interestingToMove (heap exState) (slots (heap exState) 108)"
    by (simp_all add: evl)
  have e0: "scanItems (effectsOf 10) conflicts [] (Some 1) exState = Inr ([], Some 1, False, exState)"
    by simp
  have "scanItems (effectsOf 10) conflicts ([] @ [Some 108]) (Some 1) exState =
      Inr ([] @ [Some 108], Some 1, False, exState)"
    by (rule T[THEN conjunct2, THEN conjunct2, THEN conjunct1, rule_format, OF e0 n8])
  then have 3: "scanItems (effectsOf 10) conflicts [Some 108] (Some 1) exState =
      Inr ([Some 108], Some 1, False, exState)"
    by (simp del: scanItems.simps)
  have i4: "\<not> is_Loop (kind (nodes (heap exState) (slots (heap exState) 104)))"
    "\<not> branches (effectsOf 10 (heap exState) (slots (heap exState) 104))"
    "interestingToMove (heap exState) (slots (heap exState) 104)"
    by (simp_all add: evl)
  from T[THEN conjunct2, THEN conjunct2, THEN conjunct2, THEN conjunct1, rule_format, OF ex_scan_three i4]
  obtain moved s3 where "move (effectsOf 10) conflicts 104 1 exState = Inr (moved, s3)"
    "scanItems (effectsOf 10) conflicts (map Some [108, 109, 107] @ [Some 104]) (Some 1) exState =
       Inr (map Some [108, 109, 107] @ [if moved then None else Some 104], Some 1, False, s3)"
    by blast
  with ex_move have 4: "scanItems (effectsOf 10) conflicts (map Some [108, 109, 107, 104]) (Some 1) exState =
     Inr (map Some [108, 109, 107] @ [None], Some 1, False, exMoved)"
    by (simp del: scanItems.simps)
  have l1: "is_Loop (kind (nodes (heap exState) (slots (heap exState) 101)))"
    by (simp add: evl)
  have e1: "scanItems (effectsOf 10) conflicts [] None exState = Inr ([], None, False, exState)"
    by simp
  have "scanItems (effectsOf 10) conflicts ([] @ [Some 101]) None exState =
     Inr ([] @ [Some 101], Some (slots (heap exState) 101), False, exState\<lparr>loops := loops exState @ [101]\<rparr>)"
    by (rule T[THEN conjunct2, THEN conjunct2, THEN conjunct2, THEN conjunct2, THEN conjunct1, rule_format, OF e1 l1])
  then have 5: "scanItems (effectsOf 10) conflicts [Some 101] None exState =
     Inr ([Some 101], Some 1, False, exState\<lparr>loops := [101]\<rparr>)"
    by (simp del: scanItems.simps)
  then have s5: "scanItems (effectsOf 10) conflicts (items (cfg exState 0)) None exState =
     Inr ([Some 101], Some 1, False, exState\<lparr>loops := [101]\<rparr>)"
    by (simp add: exBlocks_def del: scanItems.simps)
  have "chain (Suc 9) (effectsOf 10) conflicts 0 None exState =
      (if length (out (cfg exState 0)) = 1
       then chain 9 (effectsOf 10) conflicts (hd (out (cfg exState 0))) (Some 1)
              (setItems 0 [Some 101] (exState\<lparr>loops := [101]\<rparr>))
       else Inr (setItems 0 [Some 101] (exState\<lparr>loops := [101]\<rparr>)))"
    by (rule T[THEN conjunct2, THEN conjunct2, THEN conjunct2, THEN conjunct2, THEN conjunct2, rule_format, OF s5])
  then have 6: "chain 10 (effectsOf 10) conflicts 0 None exState =
     chain 9 (effectsOf 10) conflicts 1 (Some 1) (setItems 0 [Some 101] (exState\<lparr>loops := [101]\<rparr>))"
    by (simp add: exBlocks_def del: chain.simps)
  from 1 b6(2) 2 3 4 5 6 show ?thesis by blast
qed

text \<open>
  C2 as stated, for every item, fails at an item that holds a loop: in the second
  function, the scan of the block that ends where the inner loop starts meets the slot
  of the inner loop while the outer loop is the current one. The effects of the inner
  loop report a branch (to the outer loop), the scan does not stop, and the chain goes
  on to move the first statement of the inner loop.
\<close>

theorem loop_item_branches_counterexample:
  "branches (effectsOf 10 (heap exNested) (slots (heap exNested) 101)) \<and>
   (\<exists>st'. scanItems (effectsOf 10) conflicts (items (cfg exNested 1)) (Some 0) exNested =
            Inr ([Some 101], Some 1, False, st')) \<and>
   (\<exists>st'. chain 10 (effectsOf 10) conflicts 1 (Some 0) exNested = Inr st' \<and>
            movedOf st' 1 = [3] \<and> items (cfg st' 2) = [Some 105, None, Some 106, Some 104])"
  by (simp add: evl exNestedBlocks_def exNestedNodes_def)

section \<open>What is moved\<close>

text \<open>
  C3: \<^verbatim>\<open>move\<close> refuses (by its assertion) an expression that has a value or is a
  no-op; the assertion never fails in a run of the pass, which calls \<^verbatim>\<open>move\<close> on
  interesting expressions only; and every expression that a run adds to the moved code
  of any loop has the type \<^verbatim>\<open>none\<close> and is not a no-op, whatever its effects.
\<close>

theorem only_interesting_moved:
  "(\<not> interestingToMove (heap st) (slots (heap st) currp) \<longrightarrow>
      move A I currp loop st = Inl AssertionFailed) \<and>
   findAndMove n A I body st \<noteq> Inl AssertionFailed \<and>
   (findAndMove n A I body st = Inr st' \<longrightarrow>
      (\<forall>l e. e \<in> set (movedOf st' l) \<longrightarrow>
         e \<in> set (movedOf st l) \<or>
         type (nodes (heap st) e) = none \<and> \<not> is_Nop (kind (nodes (heap st) e))))"
proof (intro conjI impI allI)
  show "\<not> interestingToMove (heap st) (slots (heap st) currp) \<Longrightarrow>
      move A I currp loop st = Inl AssertionFailed"
    by (rule move_assert)
  show "findAndMove n A I body st \<noteq> Inl AssertionFailed"
    by (rule findAndMove_no_assert)
next
  fix l e
  assume r: "findAndMove n A I body st = Inr st'" and e: "e \<in> set (movedOf st' l)"
  from findAndMove_moved[OF r, of l] e
  show "e \<in> set (movedOf st l) \<or>
         type (nodes (heap st) e) = none \<and> \<not> is_Nop (kind (nodes (heap st) e))"
    by (auto simp: interestingToMove_def)
qed

theorem only_interesting_moved_witness:
  "\<not> interestingToMove (heap exState) (slots (heap exState) 107) \<and>
   move (effectsOf 10) conflicts 107 1 exState = Inl AssertionFailed \<and>
   (\<exists>st'. findAndMove 10 (effectsOf 10) conflicts 100 exState = Inr st' \<and>
      4 \<in> set (movedOf st' 1) \<and> 4 \<notin> set (movedOf exState 1) \<and>
      type (nodes (heap exState) 4) = none \<and> \<not> is_Nop (kind (nodes (heap exState) 4)))"
proof -
  have n: "\<not> interestingToMove (heap exState) (slots (heap exState) 107)"
    by (simp add: evl)
  from ex_run obtain st' where r: "findAndMove 10 (effectsOf 10) conflicts 100 exState = Inr st'"
    and "movedCode st' = [(1, [4])]"
    by blast
  then have m: "4 \<in> set (movedOf st' 1)" by (simp add: movedOf_def subscript_def)
  have z: "4 \<notin> set (movedOf exState 1)" by (simp add: evl)
  from only_interesting_moved[of exState 107 "effectsOf 10" conflicts 1 10 100 st'] n r m z
  show ?thesis by blast
qed

section \<open>The legality check\<close>

text \<open>
  C4: on a candidate (an expression that is interesting to move, as \<^verbatim>\<open>move\<close> asserts),
  \<^verbatim>\<open>move\<close> returns, and it reports failure exactly when the attribution recorded for
  the candidate is not the loop, or the candidate's own effects contain a call or a
  branch, or the effects of the loop, computed with the placeholder in the slot and with
  the branch flag cleared, invalidate the candidate's. A call alone makes it fail. When
  it fails, the tree (so the slot, which holds the candidate as before), the moved code
  and the arena are as they were.
\<close>

theorem move_rejects_iff:
  assumes "interestingToMove (heap st) (slots (heap st) currp)"
  shows "\<exists>ok st'. move A I currp loop st = Inr (ok, st') \<and>
     (\<not> ok \<longleftrightarrow>
        attribution st (slots (heap st) currp) \<noteq> Some loop \<or>
        calls (A (heap st) (slots (heap st) currp)) \<or>
        branches (A (heap st) (slots (heap st) currp)) \<or>
        I (loopEffects A st currp loop) (A (heap st) (slots (heap st) currp))) \<and>
     (calls (A (heap st) (slots (heap st) currp)) \<longrightarrow> \<not> ok) \<and>
     (\<not> ok \<longrightarrow> heap st' = heap st \<and> slots (heap st') currp = slots (heap st) currp \<and>
        movedCode st' = movedCode st \<and> next_id st' = next_id st)"
  by (auto simp: move_cases[OF assms] Let_def)

theorem move_rejects_iff_witness:
  "interestingToMove (heap exState) (slots (heap exState) 105) \<and>
   conflicts (loopEffects (effectsOf 10) exState 105 1) (effectsOf 10 (heap exState) 5) \<and>
   (\<exists>st'. move (effectsOf 10) conflicts 105 1 exState = Inr (False, st') \<and>
      slots (heap st') 105 = 5 \<and> movedCode st' = [])"
proof -
  have i: "interestingToMove (heap exState) (slots (heap exState) 105)"
    by (simp add: ex_defs)
  have c: "conflicts (loopEffects (effectsOf 10) exState 105 1) (effectsOf 10 (heap exState) 5)"
    by (simp add: ex_defs eval_nat_numeral)
  have s: "slots (heap exState) 105 = 5" "movedCode exState = []"
    by (simp_all add: ex_defs)
  from move_rejects_iff[OF i, of "effectsOf 10" conflicts 1] c s i
  show ?thesis by auto
qed

section \<open>The loop's side of the check\<close>

text \<open>
  C5: the effects on the loop's side are what the analyzer reports for the loop in a
  tree where the candidate's slot holds a no-op and every other slot and node is as
  before, with the branch flag cleared; so they do not depend on what the candidate's
  slot holds. A candidate that passed the earlier checks is moved exactly when these
  effects do not invalidate its own; and an analyzer that reports branching for the
  loop leads to the same result of \<^verbatim>\<open>move\<close> as one that does not.
\<close>

theorem loop_effects_placeholder:
  "loopEffects A st currp loop = (A (withPlaceholder st currp) loop)\<lparr>branches := False\<rparr> \<and>
   loopEffects A (st\<lparr>heap := (heap st)\<lparr>slots := (slots (heap st))(currp := e)\<rparr>\<rparr>) currp loop =
     loopEffects A st currp loop \<and>
   is_Nop (kind (nodes (withPlaceholder st currp) (slots (withPlaceholder st currp) currp))) \<and>
   (\<forall>p. p \<noteq> currp \<longrightarrow> slots (withPlaceholder st currp) p = slots (heap st) p) \<and>
   (\<forall>k. k \<noteq> next_id st \<longrightarrow> nodes (withPlaceholder st currp) k = nodes (heap st) k) \<and>
   \<not> branches (loopEffects A st currp loop) \<and>
   (interestingToMove (heap st) (slots (heap st) currp) \<longrightarrow>
    attribution st (slots (heap st) currp) = Some loop \<longrightarrow>
    \<not> calls (A (heap st) (slots (heap st) currp)) \<longrightarrow>
    \<not> branches (A (heap st) (slots (heap st) currp)) \<longrightarrow>
      (\<exists>ok st'. move A I currp loop st = Inr (ok, st') \<and>
         (ok \<longleftrightarrow> \<not> I ((A (withPlaceholder st currp) loop)\<lparr>branches := False\<rparr>)
                  (A (heap st) (slots (heap st) currp))))) \<and>
   (slots (heap st) currp \<noteq> loop \<longrightarrow>
      move (\<lambda>h x. if x = loop then (A h x)\<lparr>branches := b\<rparr> else A h x) I currp loop st =
      move A I currp loop st)"
proof (intro conjI impI allI)
  show "loopEffects A st currp loop = (A (withPlaceholder st currp) loop)\<lparr>branches := False\<rparr>"
    by (simp add: loopEffects_def)
  show "loopEffects A (st\<lparr>heap := (heap st)\<lparr>slots := (slots (heap st))(currp := e)\<rparr>\<rparr>) currp loop =
     loopEffects A st currp loop"
    by (simp add: loopEffects_def withPlaceholder_def)
  show "is_Nop (kind (nodes (withPlaceholder st currp) (slots (withPlaceholder st currp) currp)))"
    by (simp add: withPlaceholder_def nopNode_def)
  show "\<not> branches (loopEffects A st currp loop)"
    by (simp add: loopEffects_def)
next
  fix p assume "p \<noteq> currp"
  then show "slots (withPlaceholder st currp) p = slots (heap st) p"
    by (simp add: withPlaceholder_def)
next
  fix k assume "k \<noteq> next_id st"
  then show "nodes (withPlaceholder st currp) k = nodes (heap st) k"
    by (simp add: withPlaceholder_def)
next
  assume "interestingToMove (heap st) (slots (heap st) currp)"
    "attribution st (slots (heap st) currp) = Some loop"
    "\<not> calls (A (heap st) (slots (heap st) currp))"
    "\<not> branches (A (heap st) (slots (heap st) currp))"
  then show "\<exists>ok st'. move A I currp loop st = Inr (ok, st') \<and>
         (ok \<longleftrightarrow> \<not> I ((A (withPlaceholder st currp) loop)\<lparr>branches := False\<rparr>)
                  (A (heap st) (slots (heap st) currp)))"
    by (simp add: move_cases Let_def loopEffects_def)
next
  assume ne: "slots (heap st) currp \<noteq> loop"
  have le: "loopEffects (\<lambda>h x. if x = loop then (A h x)\<lparr>branches := b\<rparr> else A h x) st currp loop =
      loopEffects A st currp loop"
    by (simp add: loopEffects_def)
  show "move (\<lambda>h x. if x = loop then (A h x)\<lparr>branches := b\<rparr> else A h x) I currp loop st =
      move A I currp loop st"
  proof (cases "interestingToMove (heap st) (slots (heap st) currp)")
    case True
    then show ?thesis using ne by (simp add: move_cases le)
  next
    case False
    then show ?thesis by (simp add: move_assert)
  qed
qed

theorem loop_effects_placeholder_witness:
  "interestingToMove (heap exState) (slots (heap exState) 104) \<and>
   attribution exState (slots (heap exState) 104) = Some 1 \<and>
   slots (heap exState) 104 \<noteq> 1 \<and>
   branches (effectsOf 10 (withPlaceholder exState 104) 1) \<and>
   0 \<in> writes (effectsOf 10 (heap exState) 1) \<and>
   0 \<notin> writes (loopEffects (effectsOf 10) exState 104 1) \<and>
   0 \<notin> reads (loopEffects (effectsOf 10) exState 104 1) \<and>
   \<not> conflicts ((effectsOf 10 (withPlaceholder exState 104) 1)\<lparr>branches := False\<rparr>)
        (effectsOf 10 (heap exState) 4) \<and>
   (\<exists>st'. move (effectsOf 10) conflicts 104 1 exState = Inr (True, st')) \<and>
   (\<exists>st'. move (\<lambda>h x. if x = 1 then (effectsOf 10 h x)\<lparr>branches := True\<rparr> else effectsOf 10 h x)
           conflicts 104 1 exState = Inr (True, st'))"
proof -
  have i: "interestingToMove (heap exState) (slots (heap exState) 104)"
    and a: "attribution exState (slots (heap exState) 104) = Some 1"
    and s: "slots (heap exState) 104 = 4"
    and b: "branches (effectsOf 10 (withPlaceholder exState 104) 1)"
    and c: "\<not> conflicts ((effectsOf 10 (withPlaceholder exState 104) 1)\<lparr>branches := False\<rparr>)
        (effectsOf 10 (heap exState) 4)"
    and e: "\<not> calls (effectsOf 10 (heap exState) 4)" "\<not> branches (effectsOf 10 (heap exState) 4)"
    and w: "0 \<in> writes (effectsOf 10 (heap exState) 1)"
      "0 \<notin> writes ((effectsOf 10 (withPlaceholder exState 104) 1)\<lparr>branches := False\<rparr>)"
      "0 \<notin> reads ((effectsOf 10 (withPlaceholder exState 104) 1)\<lparr>branches := False\<rparr>)"
    by (simp_all add: evl withPlaceholder_def nopNode_def)
  from loop_effects_placeholder[where A="effectsOf 10" and st=exState and currp=104 and e=4
      and loop=1 and I=conflicts and b=True] i a s b c e w
  show ?thesis by auto
qed

section \<open>The order of the moved code\<close>

text \<open>
  C6 fails on the third function. The scan of the inner loop reaches the write of \<open>x\<close>,
  which is inside the write of \<open>y\<close>, before the write of \<open>y\<close>. The chain from the entry
  block cannot move the write of \<open>x\<close>, since the loop reads \<open>x\<close> after it, and moves
  the write of \<open>y\<close> with everything inside it. The chain from the top of the outer loop
  scans the same items again: the write of \<open>x\<close> is still an item, still attributed to
  the inner loop, and the loop, which no longer holds it, has nothing against it; so it
  is moved out of the statement that was moved before, and put after that statement in
  front of the loop. From \<open>x = 5\<close> the body returns 1 before the pass and 5 after it.
\<close>

theorem rehoists_out_of_hoisted_statement:
  "\<exists>s1 s2 st'.
     chain 10 (effectsOf 10) conflicts 0 None exOrder = Inr s1 \<and> movedOf s1 3 = [5] \<and>
     chain 10 (effectsOf 10) conflicts 1 None s1 = Inr s2 \<and> movedOf s2 3 = [5, 9] \<and>
     findAndMove 10 (effectsOf 10) conflicts 100 exOrder = Inr st' \<and>
     somes (items (cfg exOrder 2)) = [111, 109, 110, 107, 105, 108, 106] \<and>
     slots (heap exOrder) 109 = 9 \<and> slots (heap exOrder) 105 = 5 \<and>
     movedOf st' 3 = [5, 9] \<and>
     map (slots (heap st')) (children (nodes (heap st') (slots (heap st') 103))) = [5, 9, 3] \<and>
     children (nodes (heap st') 5) = [107] \<and>
     children (nodes (heap st') (slots (heap st') 107)) = [109, 110] \<and>
     is_Nop (kind (nodes (heap st') (slots (heap st') 109))) \<and>
     run 30 (heap exOrder) 100 [5, 0, 0] = Some (Some 1, [1, 1, 0]) \<and>
     run 30 (heap st') 100 [5, 0, 0] = Some (Some 5, [1, 5, 0])"
  by (simp add: evl exOrderNodes_def exOrderBlocks_def findAndMove_def visitLoop_def makeBlock_def
      push_back_def finalize_def storeList_def upt_rec run_def exec_numeral nopNode_def)

section \<open>Attribution\<close>

text \<open>
  C7: \<^verbatim>\<open>move\<close> rejects a candidate whose entry in \<^verbatim>\<open>expressionLoops\<close> is absent or
  is not the loop being scanned, and leaves the moved code as it was; so a run of the
  pass never adds an expression attributed to a loop \<open>A\<close> to the moved code of another
  loop \<open>B\<close>, whatever the basic blocks are.
\<close>

theorem attribution_guards_move:
  "(interestingToMove (heap st) (slots (heap st) currp) \<longrightarrow>
      map_of (expressionLoops st) (slots (heap st) currp) \<noteq> Some (Some B) \<longrightarrow>
      (\<exists>st'. move A I currp B st = Inr (False, st') \<and> movedCode st' = movedCode st)) \<and>
   (findAndMove n A I body st = Inr st' \<longrightarrow>
      map_of (expressionLoops st) e = Some (Some L) \<longrightarrow> L \<noteq> B \<longrightarrow>
      e \<notin> set (movedOf st B) \<longrightarrow> e \<notin> set (movedOf st' B))"
proof (intro conjI impI)
  assume "interestingToMove (heap st) (slots (heap st) currp)"
    and "map_of (expressionLoops st) (slots (heap st) currp) \<noteq> Some (Some B)"
  then show "\<exists>st'. move A I currp B st = Inr (False, st') \<and> movedCode st' = movedCode st"
    by (simp add: move_cases Let_def attribution_Some)
next
  assume r: "findAndMove n A I body st = Inr st'"
    and a: "map_of (expressionLoops st) e = Some (Some L)" "L \<noteq> B"
    and e: "e \<notin> set (movedOf st B)"
  from a have "attribution st e \<noteq> Some B" by (simp add: attribution_Some)
  with findAndMove_moved[OF r, of B] e show "e \<notin> set (movedOf st' B)"
    by auto
qed

theorem attribution_guards_move_witness:
  "interestingToMove (heap exState) (slots (heap exState) 104) \<and>
   map_of (expressionLoops exState) (slots (heap exState) 104) = Some (Some 1) \<and>
   (\<exists>st'. move (effectsOf 10) conflicts 104 3 exState = Inr (False, st') \<and> movedCode st' = []) \<and>
   (\<exists>st'. findAndMove 10 (effectsOf 10) conflicts 100 exState = Inr st' \<and>
      4 \<notin> set (movedOf st' 3))"
proof -
  have i: "interestingToMove (heap exState) (slots (heap exState) 104)"
    by (simp add: evl)
  have a: "map_of (expressionLoops exState) (slots (heap exState) 104) = Some (Some 1)"
    "map_of (expressionLoops exState) 4 = Some (Some 1)"
    by (simp_all add: evl)
  have z: "4 \<notin> set (movedOf exState 3)" by (simp add: evl)
  from ex_run obtain st' where r: "findAndMove 10 (effectsOf 10) conflicts 100 exState = Inr st'"
    by blast
  from attribution_guards_move[of exState 104 3 "effectsOf 10" conflicts 10 100 st' 4 1] i a z r
  show ?thesis by auto
qed

section \<open>The final walk\<close>

text \<open>
  C8: \<^verbatim>\<open>visitLoop\<close> leaves the tree as it is at a loop whose moved code is empty, and
  at a loop whose moved code is not empty it puts in the loop's slot a new block of the
  loop's type, whose children are the moved code in its order followed by the loop, the
  loop node itself unchanged. The walk of a tree (its slots placed, the fuel enough for
  its depth) returns, and in its result every slot of the tree that held a loop with
  moved code holds such a block, directly above the loop, while every slot that held a
  loop without moved code, or no loop, holds what it held, and no node of the tree has
  changed.
\<close>

theorem loops_wrapped_once:
  "(movedOf sv (slots (heap sv) p) = [] \<longrightarrow>
      heap (visitLoop p sv) = heap sv \<and> next_id (visitLoop p sv) = next_id sv) \<and>
   (movedOf sv (slots (heap sv) p) \<noteq> [] \<longrightarrow> p < next_slot sv \<longrightarrow> slots (heap sv) p < next_id sv \<longrightarrow>
      wrapped sv (visitLoop p sv) p \<and>
      nodes (heap (visitLoop p sv)) (slots (heap sv) p) = nodes (heap sv) (slots (heap sv) p)) \<and>
   (subtree n (heap st) body = Some S \<longrightarrow> placed st S \<longrightarrow>
      (\<exists>st'. walk n body st = Inr st' \<and>
         (\<forall>q \<in> set S. is_Loop (kind (nodes (heap st) (slots (heap st) q))) \<longrightarrow>
            movedOf st (slots (heap st) q) \<noteq> [] \<longrightarrow>
              next_id st \<le> slots (heap st') q \<and>
              is_Block (kind (nodes (heap st') (slots (heap st') q))) \<and>
              type (nodes (heap st') (slots (heap st') q)) = type (nodes (heap st) (slots (heap st) q)) \<and>
              map (slots (heap st')) (children (nodes (heap st') (slots (heap st') q))) =
                movedOf st (slots (heap st) q) @ [slots (heap st) q]) \<and>
         (\<forall>q \<in> set S. is_Loop (kind (nodes (heap st) (slots (heap st) q))) \<longrightarrow>
            movedOf st (slots (heap st) q) = [] \<longrightarrow> slots (heap st') q = slots (heap st) q) \<and>
         (\<forall>q \<in> set S. \<not> is_Loop (kind (nodes (heap st) (slots (heap st) q))) \<longrightarrow>
            slots (heap st') q = slots (heap st) q) \<and>
         (\<forall>k < next_id st. nodes (heap st') k = nodes (heap st) k)))"
proof (intro conjI impI)
  assume "movedOf sv (slots (heap sv) p) = []"
  then show "heap (visitLoop p sv) = heap sv" "next_id (visitLoop p sv) = next_id sv"
    by (simp_all add: visitLoop_empty)
next
  assume a: "movedOf sv (slots (heap sv) p) \<noteq> []" "p < next_slot sv" "slots (heap sv) p < next_id sv"
  note w = visitLoop_wraps[OF a] and z = visitLoop_sizes[OF a(1)]
  show "nodes (heap (visitLoop p sv)) (slots (heap sv) p) = nodes (heap sv) (slots (heap sv) p)"
    by (rule w(5))
  show "wrapped sv (visitLoop p sv) p"
    unfolding wrapped_def
  proof (intro conjI ballI)
    show "next_id sv \<le> slots (heap (visitLoop p sv)) p" by (simp add: w(1))
    show "slots (heap (visitLoop p sv)) p < next_id (visitLoop p sv)" by (simp add: w(1) z(1))
    show "is_Block (kind (nodes (heap (visitLoop p sv)) (slots (heap (visitLoop p sv)) p)))"
      by (simp add: w(1,2))
    show "type (nodes (heap (visitLoop p sv)) (slots (heap (visitLoop p sv)) p)) =
        type (nodes (heap sv) (slots (heap sv) p))"
      by (simp add: w(1,3))
    show "map (slots (heap (visitLoop p sv)))
        (children (nodes (heap (visitLoop p sv)) (slots (heap (visitLoop p sv)) p))) =
        movedOf sv (slots (heap sv) p) @ [slots (heap sv) p]"
      by (simp only: w(1,4))
  next
    fix c assume "c \<in> set (children (nodes (heap (visitLoop p sv)) (slots (heap (visitLoop p sv)) p)))"
    then show "next_slot sv \<le> c" "c < next_slot (visitLoop p sv)"
      by (auto simp: w(1) z)
  qed
next
  assume t: "subtree n (heap st) body = Some S" and pl: "placed st S"
  from walk_walked[OF t pl] obtain st' where w: "walk n body st = Inr st'"
    and k: "walked (set S) st st'" by blast
  have live: "\<And>q. q \<in> set S \<Longrightarrow> q < next_slot st" using pl by (simp add: placed_def)
  have 1: "\<forall>q \<in> set S. is_Loop (kind (nodes (heap st) (slots (heap st) q))) \<longrightarrow>
            movedOf st (slots (heap st) q) \<noteq> [] \<longrightarrow>
              next_id st \<le> slots (heap st') q \<and>
              is_Block (kind (nodes (heap st') (slots (heap st') q))) \<and>
              type (nodes (heap st') (slots (heap st') q)) = type (nodes (heap st) (slots (heap st) q)) \<and>
              map (slots (heap st')) (children (nodes (heap st') (slots (heap st') q))) =
                movedOf st (slots (heap st) q) @ [slots (heap st) q]"
  proof (intro ballI impI)
    fix q assume q: "q \<in> set S" "is_Loop (kind (nodes (heap st) (slots (heap st) q)))"
      "movedOf st (slots (heap st) q) \<noteq> []"
    then have "affected st q" by (simp add: affected_def)
    from walkedD(5)[OF k live[OF q(1)] q(1) this]
    show "next_id st \<le> slots (heap st') q \<and>
              is_Block (kind (nodes (heap st') (slots (heap st') q))) \<and>
              type (nodes (heap st') (slots (heap st') q)) = type (nodes (heap st) (slots (heap st) q)) \<and>
              map (slots (heap st')) (children (nodes (heap st') (slots (heap st') q))) =
                movedOf st (slots (heap st) q) @ [slots (heap st) q]"
      by (simp add: wrapped_def)
  qed
  have 2: "\<forall>q \<in> set S. is_Loop (kind (nodes (heap st) (slots (heap st) q))) \<longrightarrow>
            movedOf st (slots (heap st) q) = [] \<longrightarrow> slots (heap st') q = slots (heap st) q"
    using walkedD(6)[OF k] live by (auto simp: affected_def)
  have 3: "\<forall>q \<in> set S. \<not> is_Loop (kind (nodes (heap st) (slots (heap st) q))) \<longrightarrow>
            slots (heap st') q = slots (heap st) q"
    using walkedD(6)[OF k] live by (auto simp: affected_def)
  have 4: "\<forall>k < next_id st. nodes (heap st') k = nodes (heap st) k"
    using walkedD(3)[OF k] by blast
  from w 1 2 3 4
  show "\<exists>st'. walk n body st = Inr st' \<and>
         (\<forall>q \<in> set S. is_Loop (kind (nodes (heap st) (slots (heap st) q))) \<longrightarrow>
            movedOf st (slots (heap st) q) \<noteq> [] \<longrightarrow>
              next_id st \<le> slots (heap st') q \<and>
              is_Block (kind (nodes (heap st') (slots (heap st') q))) \<and>
              type (nodes (heap st') (slots (heap st') q)) = type (nodes (heap st) (slots (heap st) q)) \<and>
              map (slots (heap st')) (children (nodes (heap st') (slots (heap st') q))) =
                movedOf st (slots (heap st) q) @ [slots (heap st) q]) \<and>
         (\<forall>q \<in> set S. is_Loop (kind (nodes (heap st) (slots (heap st) q))) \<longrightarrow>
            movedOf st (slots (heap st) q) = [] \<longrightarrow> slots (heap st') q = slots (heap st) q) \<and>
         (\<forall>q \<in> set S. \<not> is_Loop (kind (nodes (heap st) (slots (heap st) q))) \<longrightarrow>
            slots (heap st') q = slots (heap st) q) \<and>
         (\<forall>k < next_id st. nodes (heap st') k = nodes (heap st) k)"
    by blast
qed

theorem loops_wrapped_once_witness:
  "subtree 10 (heap exMoved) 100 = Some [100, 101, 103, 104, 105, 110, 111, 112, 106, 113, 102] \<and>
   placed exMoved [100, 101, 103, 104, 105, 110, 111, 112, 106, 113, 102] \<and>
   is_Loop (kind (nodes (heap exMoved) (slots (heap exMoved) 101))) \<and>
   movedOf exMoved (slots (heap exMoved) 101) = [4] \<and> movedOf exMoved 3 = [] \<and>
   heap (visitLoop 103 exMoved) = heap exMoved \<and>
   wrapped exMoved (visitLoop 101 exMoved) 101 \<and>
   (\<exists>st'. walk 10 100 exMoved = Inr st' \<and>
      is_Block (kind (nodes (heap st') (slots (heap st') 101))) \<and>
      type (nodes (heap st') (slots (heap st') 101)) = none \<and>
      map (slots (heap st')) (children (nodes (heap st') (slots (heap st') 101))) = [4, 1] \<and>
      is_Loop (kind (nodes (heap st') 1)) \<and> slots (heap st') 103 = 3)"
proof -
  note e = ex_facts
  note T = loops_wrapped_once[where n=10 and st=exMoved and body=100 and sv=exMoved
      and S="[100, 101, 103, 104, 105, 110, 111, 112, 106, 113, 102]"]
  have 1: "heap (visitLoop 103 exMoved) = heap exMoved"
    using T[where p=103, THEN conjunct1, THEN mp, OF e(4)] by (rule conjunct1)
  have 2: "wrapped exMoved (visitLoop 101 exMoved) 101"
    using T[where p=101, THEN conjunct2, THEN conjunct1, THEN mp, THEN mp, THEN mp, OF _ e(9) e(10)] e(2)
    by simp
  from T[where p=101, THEN conjunct2, THEN conjunct2, THEN mp, THEN mp, OF ex_tree ex_placed]
  obtain st' where w: "walk 10 100 exMoved = Inr st'"
    and a: "\<forall>q \<in> set [100, 101, 103, 104, 105, 110, 111, 112, 106, 113, 102].
            is_Loop (kind (nodes (heap exMoved) (slots (heap exMoved) q))) \<longrightarrow>
            movedOf exMoved (slots (heap exMoved) q) \<noteq> [] \<longrightarrow>
              next_id exMoved \<le> slots (heap st') q \<and>
              is_Block (kind (nodes (heap st') (slots (heap st') q))) \<and>
              type (nodes (heap st') (slots (heap st') q)) = type (nodes (heap exMoved) (slots (heap exMoved) q)) \<and>
              map (slots (heap st')) (children (nodes (heap st') (slots (heap st') q))) =
                movedOf exMoved (slots (heap exMoved) q) @ [slots (heap exMoved) q]"
    and c: "\<forall>q \<in> set [100, 101, 103, 104, 105, 110, 111, 112, 106, 113, 102].
            \<not> is_Loop (kind (nodes (heap exMoved) (slots (heap exMoved) q))) \<longrightarrow>
            slots (heap st') q = slots (heap exMoved) q"
    and d: "\<forall>k < next_id exMoved. nodes (heap st') k = nodes (heap exMoved) k"
    by (elim exE conjE)
  have in1: "101 \<in> set [100, 101, 103, 104, 105, 110, 111, 112, 106, 113, 102::nat]"
    and in3: "103 \<in> set [100, 101, 103, 104, 105, 110, 111, 112, 106, 113, 102::nat]"
    by simp_all
  have ne: "movedOf exMoved (slots (heap exMoved) 101) \<noteq> []" by (simp only: e(2)) simp
  from a[THEN bspec, OF in1, THEN mp, THEN mp, OF e(1) ne]
  have 3:
    "is_Block (kind (nodes (heap st') (slots (heap st') 101)))"
    "type (nodes (heap st') (slots (heap st') 101)) = none"
    "map (slots (heap st')) (children (nodes (heap st') (slots (heap st') 101))) = [4, 1]"
    by (simp_all add: movedOf_def subscript_def exNodes_def)
  from c[THEN bspec, OF in3, THEN mp, OF e(8)] have 4: "slots (heap st') 103 = 3"
    by simp
  from d[THEN spec, THEN mp, OF e(11)] have 5: "is_Loop (kind (nodes (heap st') 1))"
    by (simp add: exNodes_def)
  show ?thesis
    using ex_tree ex_placed e(1,2,3) 1 2 w 3 4 5 by (intro conjI exI[of _ st'])
qed

section \<open>Where chains start\<close>

text \<open>
  C9, as amended: a chain starts from every basic block of \<^verbatim>\<open>basicBlocks\<close>, in their
  order, whether an earlier chain has scanned the block or not. The traced run computes
  the state of the run. When every block is straight within the fuel, the run returns,
  with one chain for every block of \<^verbatim>\<open>basicBlocks\<close>, that begins with the scan of this
  block; and whenever the run returns, its chains begin so. What a scan passes over are
  the items that were nulled.
\<close>

theorem chain_from_every_block:
  "map_sum id snd (startChainsTrace n A I bs st) = startChains n A I bs st \<and>
   ((\<forall>b \<in> set bs. straight n (outs st) b) \<longrightarrow>
      (\<exists>ts st'. startChainsTrace n A I bs st = Inr (ts, st') \<and> startChains n A I bs st = Inr st' \<and>
         length ts = length bs \<and> map hd ts = bs \<and> [] \<notin> set ts)) \<and>
   (startChainsTrace n A I bs st = Inr (ts, st') \<longrightarrow>
      length ts = length bs \<and> map hd ts = bs \<and> [] \<notin> set ts) \<and>
   scanItems A I (None # rest) cl st = consItem None (scanItems A I rest cl st)"
proof (intro conjI impI)
  show "map_sum id snd (startChainsTrace n A I bs st) = startChains n A I bs st"
    by (rule startChainsTrace_startChains)
next
  assume "\<forall>b \<in> set bs. straight n (outs st) b"
  from startChains_returns[OF this] obtain s1 where sc: "startChains n A I bs st = Inr s1"
    by blast
  from startChainsTrace_Inr[OF this] obtain t1 where
    tr: "startChainsTrace n A I bs st = Inr (t1, s1)" by blast
  from startChainsTrace_heads[OF tr] have "map hd t1 = bs \<and> [] \<notin> set t1" by simp
  moreover from this have "length t1 = length bs" by (metis length_map)
  ultimately show "\<exists>ts st'. startChainsTrace n A I bs st = Inr (ts, st') \<and>
      startChains n A I bs st = Inr st' \<and> length ts = length bs \<and> map hd ts = bs \<and> [] \<notin> set ts"
    using sc tr by blast
next
  assume tr: "startChainsTrace n A I bs st = Inr (ts, st')"
  from startChainsTrace_heads[OF tr] have h: "map hd ts = bs \<and> [] \<notin> set ts" by simp
  then show "map hd ts = bs" "[] \<notin> set ts" by simp_all
  from h show "length ts = length bs" by (metis length_map)
next
  show "scanItems A I (None # rest) cl st = consItem None (scanItems A I rest cl st)"
    by simp
qed

theorem chain_from_every_block_witness:
  "straight 10 (outs exState) 0 \<and> straight 10 (outs exState) 1 \<and>
   straight 10 (outs exState) 2 \<and> straight 10 (outs exState) 3 \<and>
   (\<exists>st'. startChainsTrace 10 (effectsOf 10) conflicts (basicBlocks exState) exState =
          Inr ([[0, 1], [1], [2, 3], [3]], st') \<and>
        startChains 10 (effectsOf 10) conflicts (basicBlocks exState) exState = Inr st' \<and>
        map hd [[0, 1], [1], [2, 3], [3]] = basicBlocks exState)"
proof -
  note T = chain_from_every_block[of 10 "effectsOf 10" conflicts "basicBlocks exState" exState]
  from T[THEN conjunct2, THEN conjunct1, THEN mp, OF ex_straight]
  obtain ts st' where
    t: "startChainsTrace 10 (effectsOf 10) conflicts (basicBlocks exState) exState = Inr (ts, st')"
    and s: "startChains 10 (effectsOf 10) conflicts (basicBlocks exState) exState = Inr st'"
    and h: "map hd ts = basicBlocks exState"
    by (elim exE conjE)
  from ex_trace t have ts: "ts = [[0, 1], [1], [2, 3], [3]]" by auto
  from t s h ts ex_straight show ?thesis by (intro conjI exI[of _ st']) simp_all
qed

text \<open>
  C9 as stated fails on the first function: the chain from the entry block scans the
  top of the loop, and the next chain starts from that very block and scans it again.
\<close>

theorem rescans_counterexample:
  "\<exists>ts st'. startChainsTrace 10 (effectsOf 10) conflicts (basicBlocks exState) exState = Inr (ts, st') \<and>
     ts = [[0, 1], [1], [2, 3], [3]] \<and> hd (ts ! 1) \<in> set (ts ! 0) \<and> \<not> distinct (concat ts)"
  using ex_trace by auto

section \<open>Hoisted once\<close>



end
